theory Spec2Isabelle
  imports Main
begin

section \<open>The file watcher service of server-go/main.go\<close>

text \<open>
  The service keeps a table \<open>lock\<close> from file names to a status and a count of rows already
  read, a queue of file names with a round-robin cursor, and a counter of active workers.
  Three kinds of goroutine act on it: the scan loop (\<open>checkForNewFiles\<close>,
  \<open>handleNewFileEvent\<close>), the dispatch loop (\<open>processFiles\<close>) and one worker per dispatch
  (\<open>readFile\<close>).

  Each source function is a function on the state below. The calls of the scan loop and
  of the dispatch loop are steps of the running service as a whole; the mutex \<open>mu\<close>, held
  only inside the accessors of the table, is not represented. A worker is different: it
  reads the saved row count of its file, then reads the file, and only then writes the
  new count back, with no lock held in between, so its run is two steps, between which
  the other goroutines can act. Go's \<open>int\<close> is the type \<open>int\<close>: the counters here count
  files, workers and rows read from a file, far below the machine range.
\<close>

subsection \<open>Constants and data\<close>

definition DATA_FILES_DIR :: string where
  "DATA_FILES_DIR = ''./data''"

definition RESULT_FILE_PATH :: string where
  "RESULT_FILE_PATH = ''./result.txt''"

definition MAX_THREADS_COUNT :: int where
  "MAX_THREADS_COUNT = 4"

definition MAX_CHUNK_SIZE :: int where
  "MAX_CHUNK_SIZE = 3"

text \<open>\<open>FileStatus\<close> is a Go string type with three named values; the zero value is the
  empty string, which is what a lookup of an untracked file yields.\<close>

type_synonym FileStatus = string

definition NotRead :: FileStatus where
  "NotRead = ''not_read''"

definition Reading :: FileStatus where
  "Reading = ''reading''"

definition Completed :: FileStatus where
  "Completed = ''completed''"

record FileLock =
  Status :: FileStatus
  ReadLinesNumber :: int

text \<open>The fields of the struct that the functions below read or write. The two tick
  intervals, the mutex and the channel \<open>processFilesEvent\<close> (on which nothing is ever
  sent) are left out. \<open>newFilesEvent\<close> is the buffered channel, holding at most
  \<open>newFilesEvent_cap\<close> names.\<close>

record FileWatcherService =
  activeWorkers :: int
  filesQueue :: "string list"
  lock :: "string \<rightharpoonup> FileLock"
  currentFileIndex :: int
  watching :: bool
  maxThreads :: int
  folderPath :: string
  newFilesEvent :: "string list"

definition newFilesEvent_cap :: nat where
  "newFilesEvent_cap = 10"

text \<open>What surrounds the service: the lines printed to standard output, the lines of the
  result file, the workers started with \<open>go worker.startProcessing()\<close> that have not run
  yet (a worker is its file name; its \<open>service\<close> pointer is the state itself), the workers
  that have opened their file and read its saved row count into \<open>readLines\<close> but have not
  written back yet (file name and \<open>readLines\<close>), and whether the scan goroutine is blocked
  for good on a send to the full channel.\<close>

record World = FileWatcherService +
  stdout :: "string list"
  resultFile :: "string list"
  workers :: "string list"
  running :: "(string \<times> int) list"
  scanBlocked :: bool

datatype panic = IndexOutOfRange

text \<open>Go's \<open>xs[i]\<close>: a run-time panic outside the range.\<close>

definition go_index :: "'a list \<Rightarrow> int \<Rightarrow> panic + 'a" where
  "go_index xs i =
     (if 0 \<le> i \<and> i < int (length xs) then Inr (xs ! nat i) else Inl IndexOutOfRange)"

text \<open>Go's \<open>a % b\<close> for \<open>b > 0\<close>: the remainder of the division truncated towards zero.\<close>

definition go_rem :: "int \<Rightarrow> int \<Rightarrow> int" where
  "go_rem a b = (if 0 \<le> a then a mod b else - ((- a) mod b))"

text \<open>\<open>s.lock[file]\<close>: the entry, or the zero value of \<open>FileLock\<close> for a missing key.\<close>

definition lockAt :: "World \<Rightarrow> string \<Rightarrow> FileLock" where
  "lockAt s file =
     (case lock s file of
        None \<Rightarrow> \<lparr>Status = [], ReadLinesNumber = 0\<rparr>
      | Some l \<Rightarrow> l)"

definition println :: "string \<Rightarrow> World \<Rightarrow> World" where
  "println line s = s\<lparr>stdout := stdout s @ [line]\<rparr>"

subsection \<open>Construction\<close>

definition NewFileWatcherService :: "string \<Rightarrow> int \<Rightarrow> World" where
  "NewFileWatcherService folder maxT =
     \<lparr>activeWorkers = 0, filesQueue = [], lock = Map.empty, currentFileIndex = 0,
      watching = False, maxThreads = maxT, folderPath = folder, newFilesEvent = [],
      stdout = [], resultFile = [], workers = [], running = [], scanBlocked = False\<rparr>"

definition StartWatching :: "World \<Rightarrow> World" where
  "StartWatching s = (if watching s then s else s\<lparr>watching := True\<rparr>)"

subsection \<open>The tracking table\<close>

definition isFileTracked :: "World \<Rightarrow> string \<Rightarrow> bool" where
  "isFileTracked s file = (lock s file \<noteq> None)"

definition getFileStatus :: "World \<Rightarrow> string \<Rightarrow> FileStatus" where
  "getFileStatus s file = Status (lockAt s file)"

definition setFileStatus :: "World \<Rightarrow> string \<Rightarrow> FileStatus \<Rightarrow> int \<Rightarrow> World" where
  "setFileStatus s file status readLinesNumber =
     (if Status (lockAt s file) = Completed \<and> status \<noteq> Completed
      then println (''Cannot change status from completed to '' @ status
                      @ '' for file '' @ file) s
      else println (''File '' @ file @ '' status updated to '' @ status)
             (s\<lparr>lock := (lock s)(file \<mapsto>
                    \<lparr>Status = status, ReadLinesNumber = readLinesNumber\<rparr>)\<rparr>))"

subsection \<open>The round-robin picker\<close>

text \<open>The loop of \<open>pickNextFile\<close> from counter \<open>i\<close> on. The result is the file picked (the
  empty string for none) and the state with the cursor moved.\<close>

function pick_loop :: "World \<Rightarrow> int \<Rightarrow> panic + (string \<times> World)" where
  "pick_loop s i =
     (if i < int (length (filesQueue s)) then
        (let index = go_rem (currentFileIndex s + i) (int (length (filesQueue s)))
         in case go_index (filesQueue s) index of
              Inl p \<Rightarrow> Inl p
            | Inr currentFile \<Rightarrow>
                if Status (lockAt s currentFile) \<noteq> Completed
                then Inr (currentFile,
                       s\<lparr>currentFileIndex :=
                            go_rem (index + 1) (int (length (filesQueue s)))\<rparr>)
                else pick_loop s (i + 1))
      else Inr ([], s))"
  by pat_completeness auto
termination
  by (relation "measure (\<lambda>(s, i). nat (int (length (filesQueue s)) - i))") auto

definition pickNextFile :: "World \<Rightarrow> panic + (string \<times> World)" where
  "pickNextFile s = (if length (filesQueue s) = 0 then Inr ([], s) else pick_loop s 0)"

subsection \<open>The dispatcher\<close>

definition processFiles :: "World \<Rightarrow> panic + World" where
  "processFiles s =
     (if activeWorkers s \<ge> maxThreads s then Inr s
      else case pickNextFile s of
             Inl p \<Rightarrow> Inl p
           | Inr (file, s1) \<Rightarrow>
               if file \<noteq> [] then
                 (let s2 = setFileStatus s1 file Reading (ReadLinesNumber (lockAt s1 file));
                      s3 = s2\<lparr>activeWorkers := activeWorkers s2 + 1\<rparr>
                  in Inr (s3\<lparr>workers := workers s3 @ [file]\<rparr>))
               else Inr s1)"

subsection \<open>The directory scanner\<close>

text \<open>Go's \<open>filepath.Ext\<close>: the suffix of the last path element from its final dot on,
  empty when that element has no dot.\<close>

definition Ext :: "string \<Rightarrow> string" where
  "Ext path =
     (let back = takeWhile (\<lambda>c. c \<noteq> CHR ''/'') (rev path)
      in if CHR ''.'' \<in> set back
         then CHR ''.'' # rev (takeWhile (\<lambda>c. c \<noteq> CHR ''.'') back)
         else [])"

record DirEntry =
  Name :: string
  IsDir :: bool

text \<open>The loop over the directory listing. A new file is put into the table and the
  queue first and announced on \<open>newFilesEvent\<close> afterwards; the only receiver of that
  channel is the goroutine running this loop, so a send to the full channel never
  returns and the rest of the listing is not looked at. (\<open>CHR 0x27\<close> is the single
  quote of the message.)\<close>

fun scan_loop :: "DirEntry list \<Rightarrow> World \<Rightarrow> World" where
  "scan_loop [] s = s"
| "scan_loop (file # rest) s =
     (if IsDir file then scan_loop rest s
      else if Ext (Name file) = ''.csv'' \<and> \<not> isFileTracked s (Name file) then
        (let s1 = s\<lparr>lock := (lock s)(Name file \<mapsto>
                       \<lparr>Status = NotRead, ReadLinesNumber = 0\<rparr>)\<rparr>;
             s2 = s1\<lparr>filesQueue := filesQueue s1 @ [Name file]\<rparr>;
             s3 = println (''Added new file '' @ Name file
                             @ '' to the queue with status '' @ [CHR 0x27]
                             @ ''not_read'' @ [CHR 0x27]) s2
         in if length (newFilesEvent s3) < newFilesEvent_cap
            then scan_loop rest (s3\<lparr>newFilesEvent := newFilesEvent s3 @ [Name file]\<rparr>)
            else s3\<lparr>scanBlocked := True\<rparr>)
      else scan_loop rest s)"

text \<open>\<open>listing\<close> is what \<open>os.ReadDir(s.folderPath)\<close> returns: an error or the entries.\<close>

definition checkForNewFiles :: "World \<Rightarrow> string + DirEntry list \<Rightarrow> World" where
  "checkForNewFiles s listing =
     (case listing of
        Inl err \<Rightarrow> println (''Error reading directory: '' @ err) s
      | Inr files \<Rightarrow> scan_loop files s)"

definition handleNewFileEvent :: "World \<Rightarrow> string \<Rightarrow> panic + World" where
  "handleNewFileEvent s file =
     (if isFileTracked s file
      then Inr (println (''File '' @ file @ '' is already being processed or completed'') s)
      else processFiles (println (''Processing new file: '' @ file) s))"

subsection \<open>The worker\<close>

fun isEmptyLine :: "string list \<Rightarrow> bool" where
  "isEmptyLine [] = True"
| "isEmptyLine (field # rest) = (if field \<noteq> [] then False else isEmptyLine rest)"

text \<open>What successive calls of \<open>reader.Read()\<close> return: a record, or an error; the end of
  the list is \<open>io.EOF\<close>. (The reader of \<open>encoding/csv\<close> returns no record without fields,
  and with its default setting every record has as many fields as the first one; a line
  that differs is an error.)\<close>

datatype read_result = Rec "string list" | ReadErr string

type_synonym row = "string \<rightharpoonup> string"

text \<open>The read loop of \<open>readFile\<close>, on the remaining reads and the variables \<open>readLines\<close>,
  \<open>tempReadLines\<close> and \<open>results\<close>; it returns the last two.\<close>

fun read_loop :: "read_result list \<Rightarrow> int \<Rightarrow> int \<Rightarrow> row list \<Rightarrow> panic + (int \<times> row list)" where
  "read_loop [] readLines tempReadLines results = Inr (tempReadLines, results)"
| "read_loop (ReadErr err # rest) readLines tempReadLines results =
     Inr (tempReadLines, results)"
| "read_loop (Rec cols # rest) readLines tempReadLines results =
     (if isEmptyLine cols then read_loop rest readLines tempReadLines results
      else if readLines > 0 then read_loop rest (readLines - 1) tempReadLines results
      else if int (length results) < MAX_CHUNK_SIZE then
        (case go_index cols 0 of
           Inl p \<Rightarrow> Inl p
         | Inr v0 \<Rightarrow>
             (case go_index cols 1 of
                Inl p \<Rightarrow> Inl p
              | Inr v1 \<Rightarrow>
                  read_loop rest readLines (tempReadLines + 1)
                    (results @ [[''id'' \<mapsto> v0, ''name'' \<mapsto> v1]])))
      else Inr (tempReadLines, results))"

text \<open>What the operating system does for one run of a worker: \<open>openResult\<close> is the error
  of \<open>os.Open\<close> or the reads the csv reader then gives; \<open>sinkOpenErr\<close> is the error of
  opening the result file, if any; \<open>sinkWriteErr i\<close> is the error of writing row \<open>i\<close> of the
  chunk, if any.\<close>

record WorkerEnv =
  openResult :: "string + read_result list"
  sinkOpenErr :: "string option"
  sinkWriteErr :: "nat \<Rightarrow> string option"

text \<open>\<open>row["id"]\<close>: the zero value for a missing key.\<close>

definition field_of :: "row \<Rightarrow> string \<Rightarrow> string" where
  "field_of r k = (case r k of None \<Rightarrow> [] | Some v \<Rightarrow> v)"

fun write_rows :: "(nat \<Rightarrow> string option) \<Rightarrow> nat \<Rightarrow> row list \<Rightarrow> World \<Rightarrow> World" where
  "write_rows werr i [] s = s"
| "write_rows werr i (r # rest) s =
     write_rows werr (Suc i) rest
       (case werr i of
          None \<Rightarrow> s\<lparr>resultFile := resultFile s @ [field_of r ''id'' @ '','' @ field_of r ''name'']\<rparr>
        | Some err \<Rightarrow> println (''Error writing to result file: '' @ err) s)"

definition appendToResultFile :: "World \<Rightarrow> WorkerEnv \<Rightarrow> row list \<Rightarrow> World" where
  "appendToResultFile s env chunk =
     (case sinkOpenErr env of
        Some err \<Rightarrow> println (''Error opening result file: '' @ err) s
      | None \<Rightarrow>
          println (''Appended chunk to '' @ RESULT_FILE_PATH)
            (write_rows (sinkWriteErr env) 0 chunk s))"

definition readFile :: "World \<Rightarrow> string \<Rightarrow> WorkerEnv \<Rightarrow> panic + World" where
  "readFile s file env =
     (let s0 = println (''Start reading file '' @ file) s
      in case openResult env of
           Inl err \<Rightarrow>
             (let s1 = println (''Error opening file '' @ file @ '': '' @ err) s0
              in Inr (s1\<lparr>activeWorkers := activeWorkers s1 - 1\<rparr>))
         | Inr reads \<Rightarrow>
             (let readLines = ReadLinesNumber (lockAt s0 file)
              in case read_loop reads readLines readLines [] of
                   Inl p \<Rightarrow> Inl p
                 | Inr (tempReadLines, results) \<Rightarrow>
                     (let s1 = appendToResultFile s0 env results;
                          s2 = (if int (length results) < MAX_CHUNK_SIZE
                                then println (''File '' @ file @ '' has been completed.'')
                                       (setFileStatus s1 file Completed tempReadLines)
                                else println (''File '' @ file @ '' is set to '' @ [CHR 0x27]
                                         @ ''not_read'' @ [CHR 0x27]
                                         @ '' for further processing.'')
                                       (setFileStatus s1 file NotRead tempReadLines))
                      in Inr (s2\<lparr>activeWorkers := activeWorkers s2 - 1\<rparr>))))"

text \<open>The two parts of \<open>readFile\<close> between which other goroutines can act. The first
  part goes up to the read of the saved row count (\<open>readLines := w.service.lock[w.file]
  .ReadLinesNumber\<close>); it ends the worker when the file cannot be opened and otherwise
  gives \<open>readLines\<close>. The second part is the read loop and all that follows it, for the
  \<open>readLines\<close> read before.\<close>

definition readFile_begin :: "World \<Rightarrow> string \<Rightarrow> WorkerEnv \<Rightarrow> World \<times> int option" where
  "readFile_begin s file env =
     (let s0 = println (''Start reading file '' @ file) s
      in case openResult env of
           Inl err \<Rightarrow>
             (let s1 = println (''Error opening file '' @ file @ '': '' @ err) s0
              in (s1\<lparr>activeWorkers := activeWorkers s1 - 1\<rparr>, None))
         | Inr reads \<Rightarrow> (s0, Some (ReadLinesNumber (lockAt s0 file))))"

definition readFile_end ::
    "World \<Rightarrow> string \<Rightarrow> int \<Rightarrow> read_result list \<Rightarrow> WorkerEnv \<Rightarrow> panic + World" where
  "readFile_end s0 file readLines reads env =
     (case read_loop reads readLines readLines [] of
        Inl p \<Rightarrow> Inl p
      | Inr (tempReadLines, results) \<Rightarrow>
          (let s1 = appendToResultFile s0 env results;
               s2 = (if int (length results) < MAX_CHUNK_SIZE
                     then println (''File '' @ file @ '' has been completed.'')
                            (setFileStatus s1 file Completed tempReadLines)
                     else println (''File '' @ file @ '' is set to '' @ [CHR 0x27]
                              @ ''not_read'' @ [CHR 0x27]
                              @ '' for further processing.'')
                            (setFileStatus s1 file NotRead tempReadLines))
           in Inr (s2\<lparr>activeWorkers := activeWorkers s2 - 1\<rparr>)))"

subsection \<open>The steps of the running service\<close>

text \<open>A step is a tick of the scan loop, the scan loop taking a name from
  \<open>newFilesEvent\<close>, a tick of the dispatch loop, a started worker doing the first part of
  \<open>readFile\<close> (and ending there when the file cannot be opened), or a worker that has read
  its \<open>readLines\<close> doing the second part; \<open>reads\<close> is what the csv reader gives that
  worker. A panic ends the process, so a call that panics gives no next state.\<close>

inductive step :: "World \<Rightarrow> World \<Rightarrow> bool" where
  scan_tick:
    "\<not> scanBlocked s \<Longrightarrow> step s (checkForNewFiles s listing)"
| new_file_event:
    "\<not> scanBlocked s \<Longrightarrow> newFilesEvent s = file # rest \<Longrightarrow>
     handleNewFileEvent (s\<lparr>newFilesEvent := rest\<rparr>) file = Inr s' \<Longrightarrow> step s s'"
| dispatch_tick:
    "processFiles s = Inr s' \<Longrightarrow> step s s'"
| worker_open_failed:
    "i < length (workers s) \<Longrightarrow> readFile_begin s (workers s ! i) env = (s', None) \<Longrightarrow>
     step s (s'\<lparr>workers := take i (workers s') @ drop (Suc i) (workers s')\<rparr>)"
| worker_opened:
    "i < length (workers s) \<Longrightarrow>
     readFile_begin s (workers s ! i) env = (s', Some readLines) \<Longrightarrow>
     step s (s'\<lparr>workers := take i (workers s') @ drop (Suc i) (workers s'),
               running := running s' @ [(workers s ! i, readLines)]\<rparr>)"
| worker_finished:
    "j < length (running s) \<Longrightarrow> running s ! j = (file, readLines) \<Longrightarrow>
     readFile_end s file readLines reads env = Inr s' \<Longrightarrow>
     step s (s'\<lparr>running := take j (running s') @ drop (Suc j) (running s')\<rparr>)"

text \<open>The states the service started as \<open>main\<close> does, with the given folder and ceiling,
  can be in.\<close>

definition reachable :: "string \<Rightarrow> int \<Rightarrow> World \<Rightarrow> bool" where
  "reachable folder maxT s =
     step\<^sup>*\<^sup>* (StartWatching (NewFileWatcherService folder maxT)) s"

subsection \<open>Notions used to state the properties\<close>

definition isCompleted :: "World \<Rightarrow> string \<Rightarrow> bool" where
  "isCompleted s file = (Status (lockAt s file) = Completed)"

text \<open>A state to try the statements on: three files in the queue, the first completed
  with 7 rows read, the second being read from row 3 by the one worker in flight, the
  third not read yet; the cursor stands behind the second.\<close>

definition example_world :: World where
  "example_world =
     (StartWatching (NewFileWatcherService DATA_FILES_DIR MAX_THREADS_COUNT))
       \<lparr>activeWorkers := 1,
        filesQueue := [''a.csv'', ''b.csv'', ''c.csv''],
        lock := [''a.csv'' \<mapsto> \<lparr>Status = Completed, ReadLinesNumber = 7\<rparr>,
                 ''b.csv'' \<mapsto> \<lparr>Status = Reading, ReadLinesNumber = 3\<rparr>,
                 ''c.csv'' \<mapsto> \<lparr>Status = NotRead, ReadLinesNumber = 0\<rparr>],
        currentFileIndex := 2,
        workers := [''b.csv'']\<rparr>"

text \<open>The rows of a file as the specification counts them: the records read before the
  first error that are not blank.\<close>

fun data_rows :: "read_result list \<Rightarrow> string list list" where
  "data_rows [] = []"
| "data_rows (ReadErr err # rest) = []"
| "data_rows (Rec cols # rest) =
     (if isEmptyLine cols then data_rows rest else cols # data_rows rest)"

text \<open>The chunk the specification asks for at saved offset \<open>off\<close>: skip \<open>off\<close> rows, take
  up to the chunk size.\<close>

definition next_chunk :: "read_result list \<Rightarrow> int \<Rightarrow> string list list" where
  "next_chunk reads off = take (nat MAX_CHUNK_SIZE) (drop (nat off) (data_rows reads))"

definition mk_row :: "string list \<Rightarrow> row" where
  "mk_row cols = [''id'' \<mapsto> cols ! 0, ''name'' \<mapsto> cols ! 1]"

text \<open>The line of the result file for a row with at least two fields.\<close>

definition line_of :: "string list \<Rightarrow> string" where
  "line_of cols = cols ! 0 @ '','' @ cols ! 1"

fun is_blank :: "read_result \<Rightarrow> bool" where
  "is_blank (Rec cols) = isEmptyLine cols"
| "is_blank (ReadErr err) = False"

text \<open>A dispatch and the run of the worker it started, with nothing in between: the
  step \<open>dispatch_tick\<close> and then both parts of \<open>readFile\<close> for the last worker, one after
  the other. When the tick dispatches nothing, nothing runs.\<close>

definition dispatch_then_run :: "World \<Rightarrow> WorkerEnv \<Rightarrow> panic + World" where
  "dispatch_then_run s env =
     (case processFiles s of
        Inl p \<Rightarrow> Inl p
      | Inr s1 \<Rightarrow>
          if workers s1 = workers s then Inr s1
          else (case readFile s1 (last (workers s1)) env of
                  Inl p \<Rightarrow> Inl p
                | Inr s2 \<Rightarrow> Inr (s2\<lparr>workers := butlast (workers s2)\<rparr>)))"

text \<open>The queue in the order in which \<open>pickNextFile\<close> probes it, and the files of it that
  are not completed, in that order.\<close>

definition probe_order :: "World \<Rightarrow> string list" where
  "probe_order s = rotate (nat (currentFileIndex s)) (filesQueue s)"

definition eligible_order :: "World \<Rightarrow> string list" where
  "eligible_order s = filter (\<lambda>f. \<not> isCompleted s f) (probe_order s)"

text \<open>A scheduling pass: calls of \<open>pickNextFile\<close>, between which the state may change in any
  way that keeps the queue and the cursor and turns no queued file into or out of
  Completed (marking the picked file Reading and starting its worker is such a change).\<close>

definition same_pass :: "World \<Rightarrow> World \<Rightarrow> bool" where
  "same_pass s t =
     (filesQueue t = filesQueue s \<and> currentFileIndex t = currentFileIndex s
      \<and> (\<forall>f \<in> set (filesQueue s). isCompleted t f = isCompleted s f))"

inductive pass :: "World \<Rightarrow> string list \<Rightarrow> World \<Rightarrow> bool" where
  pass_done: "pass s [] s"
| pass_pick: "pickNextFile s = Inr (f, s1) \<Longrightarrow> same_pass s1 s2 \<Longrightarrow> pass s2 fs t \<Longrightarrow>
              pass s (f # fs) t"

text \<open>States and files to try the statements on. \<open>one_file_world\<close> is the service after
  its first scan has found the single file \<open>a.csv\<close>; \<open>example_dispatched\<close> is
  \<open>example_world\<close> after a dispatch tick, which picks \<open>c.csv\<close>. The files: seven rows
  (and a blank one), six rows, a file whose fifth line does not parse, a file whose
  only line has a single field, and a file of blank rows.\<close>

definition one_file_world :: World where
  "one_file_world =
     checkForNewFiles (StartWatching (NewFileWatcherService DATA_FILES_DIR MAX_THREADS_COUNT))
       (Inr [\<lparr>Name = ''a.csv'', IsDir = False\<rparr>])"

definition example_dispatched :: World where
  "example_dispatched =
     (setFileStatus (example_world\<lparr>currentFileIndex := 0\<rparr>) ''c.csv'' Reading 0)
       \<lparr>activeWorkers := 2, workers := [''b.csv'', ''c.csv'']\<rparr>"

definition file_env :: "read_result list \<Rightarrow> WorkerEnv" where
  "file_env reads =
     \<lparr>openResult = Inr reads, sinkOpenErr = None, sinkWriteErr = (\<lambda>i. None)\<rparr>"

definition seven_rows :: "read_result list" where
  "seven_rows =
     [Rec [''1'', ''a''], Rec [''2'', ''b''], Rec ['''', ''''], Rec [''3'', ''c''],
      Rec [''4'', ''d''], Rec [''5'', ''e''], Rec [''6'', ''f''], Rec [''7'', ''g'']]"

definition six_rows :: "read_result list" where
  "six_rows =
     [Rec [''1'', ''a''], Rec [''2'', ''b''], Rec [''3'', ''c''],
      Rec [''4'', ''d''], Rec [''5'', ''e''], Rec [''6'', ''f'']]"

definition broken_rows :: "read_result list" where
  "broken_rows =
     [Rec [''1'', ''a''], Rec [''2'', ''b''], Rec [''3'', ''c''], Rec [''4'', ''d''],
      ReadErr ''record on line 5: wrong number of fields'', Rec [''6'', ''f'']]"

definition one_field_rows :: "read_result list" where
  "one_field_rows = [Rec [''x'']]"

definition blank_rows :: "read_result list" where
  "blank_rows = [Rec [[], []], Rec [[], []], Rec [[], []]]"

text \<open>A run of a worker whose file cannot be opened.\<close>

definition missing_file_env :: WorkerEnv where
  "missing_file_env =
     \<lparr>openResult = Inl ''open data/b.csv: no such file or directory'',
      sinkOpenErr = None, sinkWriteErr = (\<lambda>i. None)\<rparr>"

text \<open>What the picker relies on: the cursor is not negative, no name is queued twice, no
  queued name is empty, and every queued name is tracked.\<close>

definition queue_invariant :: "World \<Rightarrow> bool" where
  "queue_invariant s =
     (0 \<le> currentFileIndex s \<and> distinct (filesQueue s) \<and> [] \<notin> set (filesQueue s)
      \<and> set (filesQueue s) \<subseteq> dom (lock s))"







section \<open>Basic facts\<close>

lemma status_distinct [simp]:
  "NotRead \<noteq> Completed" "Reading \<noteq> Completed" "NotRead \<noteq> Reading"
  "Completed \<noteq> NotRead" "Completed \<noteq> Reading" "Reading \<noteq> NotRead"
  "Completed \<noteq> []" "Reading \<noteq> []" "NotRead \<noteq> []"
  by (simp_all add: NotRead_def Reading_def Completed_def)

lemma println_fields [simp]:
  "lock (println l s) = lock s"
  "filesQueue (println l s) = filesQueue s"
  "activeWorkers (println l s) = activeWorkers s"
  "maxThreads (println l s) = maxThreads s"
  "currentFileIndex (println l s) = currentFileIndex s"
  "newFilesEvent (println l s) = newFilesEvent s"
  "workers (println l s) = workers s"
  "running (println l s) = running s"
  "scanBlocked (println l s) = scanBlocked s"
  "resultFile (println l s) = resultFile s"
  "stdout (println l s) = stdout s @ [l]"
  by (simp_all add: println_def)

lemma lockAt_println [simp]: "lockAt (println l s) f = lockAt s f"
  by (simp add: lockAt_def)

lemma setFileStatus_fields [simp]:
  "filesQueue (setFileStatus s f st n) = filesQueue s"
  "activeWorkers (setFileStatus s f st n) = activeWorkers s"
  "maxThreads (setFileStatus s f st n) = maxThreads s"
  "currentFileIndex (setFileStatus s f st n) = currentFileIndex s"
  "newFilesEvent (setFileStatus s f st n) = newFilesEvent s"
  "workers (setFileStatus s f st n) = workers s"
  "running (setFileStatus s f st n) = running s"
  "scanBlocked (setFileStatus s f st n) = scanBlocked s"
  "resultFile (setFileStatus s f st n) = resultFile s"
  by (simp_all add: setFileStatus_def)

lemma lockAt_setFileStatus:
  "lockAt (setFileStatus s f st n) g =
     (if g = f \<and> \<not> (Status (lockAt s f) = Completed \<and> st \<noteq> Completed)
      then \<lparr>Status = st, ReadLinesNumber = n\<rparr> else lockAt s g)"
  by (simp add: setFileStatus_def lockAt_def)

subsection \<open>The read loop\<close>

lemma write_rows_lock [simp]:
  "lock (write_rows werr i rows s) = lock s"
  "activeWorkers (write_rows werr i rows s) = activeWorkers s"
  "maxThreads (write_rows werr i rows s) = maxThreads s"
  "filesQueue (write_rows werr i rows s) = filesQueue s"
  "currentFileIndex (write_rows werr i rows s) = currentFileIndex s"
  "newFilesEvent (write_rows werr i rows s) = newFilesEvent s"
  "workers (write_rows werr i rows s) = workers s"
  "running (write_rows werr i rows s) = running s"
  "scanBlocked (write_rows werr i rows s) = scanBlocked s"
  by (induction werr i rows s rule: write_rows.induct; simp split: option.splits)+

lemma write_rows_ok:
  "\<forall>i. werr i = None \<Longrightarrow>
   resultFile (write_rows werr i rows s)
     = resultFile s @ map (\<lambda>r. field_of r ''id'' @ '','' @ field_of r ''name'') rows"
  by (induction werr i rows s rule: write_rows.induct) simp_all

lemma read_loop_chunk:
  "length res \<le> 3 \<Longrightarrow>
   \<forall>cols \<in> set (take (3 - length res) (drop (nat rl) (data_rows reads))). 2 \<le> length cols \<Longrightarrow>
   read_loop reads rl t res =
     Inr (t + int (length (take (3 - length res) (drop (nat rl) (data_rows reads)))),
          res @ map mk_row (take (3 - length res) (drop (nat rl) (data_rows reads))))"
proof (induction reads arbitrary: rl t res)
  case Nil
  then show ?case by simp
next
  case (Cons r reads)
  show ?case
  proof (cases r)
    case (ReadErr e)
    then show ?thesis by simp
  next
    case (Rec cols)
    show ?thesis
    proof (cases "isEmptyLine cols")
      case True
      with Rec Cons show ?thesis by simp
    next
      case nb: False
      show ?thesis
      proof (cases "rl > 0")
        case True
        then have "nat rl = Suc (nat (rl - 1))" by simp
        with Rec nb True Cons.IH [of res "rl - 1" t] Cons.prems show ?thesis
          by simp
      next
        case z: False
        then have nz: "nat rl = 0" by simp
        show ?thesis
        proof (cases "length res < 3")
          case True
          then obtain m where m: "3 - length res = Suc m"
            by (cases "3 - length res") simp_all
          from True m have m': "3 - length (res @ [mk_row cols]) = m" by simp
          from Cons.prems(2) Rec nb nz m have c2: "2 \<le> length cols" 
            and rest: "\<forall>c \<in> set (take m (drop (nat rl) (data_rows reads))). 2 \<le> length c"
            by simp_all
          from True have l: "length (res @ [mk_row cols]) \<le> 3" by simp
          from Cons.IH [OF l, of rl "t + 1"] rest m'
          have "read_loop reads rl (t + 1) (res @ [mk_row cols]) =
              Inr (t + 1 + int (length (take m (drop (nat rl) (data_rows reads)))),
                (res @ [mk_row cols]) @ map mk_row (take m (drop (nat rl) (data_rows reads))))"
            by simp
          moreover from c2 have "go_index cols 0 = Inr (cols ! 0)" "go_index cols 1 = Inr (cols ! 1)"
            by (auto simp add: go_index_def)
          then have "read_loop (Rec cols # reads) rl t res
                 = read_loop reads rl (t + 1) (res @ [mk_row cols])"
            using nb z True by (simp add: MAX_CHUNK_SIZE_def mk_row_def)
          ultimately show ?thesis using Rec nb nz m
            by simp
        next
          case False
          with Cons.prems have "length res = 3" by simp
          with Rec nb z show ?thesis by (simp add: MAX_CHUNK_SIZE_def)
        qed
      qed
    qed
  qed
qed

subsection \<open>The picker\<close>

declare pick_loop.simps [simp del]

lemma go_rem_nonneg: "0 \<le> a \<Longrightarrow> go_rem a b = a mod b"
  by (simp add: go_rem_def)

lemma probe_order_nth:
  "0 \<le> currentFileIndex s \<Longrightarrow> j < length (filesQueue s) \<Longrightarrow>
   probe_order s ! j = filesQueue s ! ((nat (currentFileIndex s) + j) mod length (filesQueue s))"
  by (simp add: probe_order_def nth_rotate)

lemma length_probe_order [simp]: "length (probe_order s) = length (filesQueue s)"
  by (simp add: probe_order_def)

lemma set_probe_order [simp]: "set (probe_order s) = set (filesQueue s)"
  by (simp add: probe_order_def)

lemma pick_loop_unfold:
  assumes c: "0 \<le> currentFileIndex s" and i: "i < length (filesQueue s)"
  shows "pick_loop s (int i) =
     (if \<not> isCompleted s (probe_order s ! i)
      then Inr (probe_order s ! i,
             s\<lparr>currentFileIndex :=
                 int (((nat (currentFileIndex s) + i) mod length (filesQueue s) + 1)
                        mod length (filesQueue s))\<rparr>)
      else pick_loop s (1 + int i))"
proof -
  let ?n = "length (filesQueue s)"
  let ?idx = "(nat (currentFileIndex s) + i) mod ?n"
  from i have n: "0 < ?n" by (cases "filesQueue s") simp_all
  have r: "go_rem (currentFileIndex s + int i) (int ?n) = int ?idx"
    using c by (simp add: go_rem_nonneg zmod_int)
  have lt: "?idx < ?n" using n by simp
  have r2': "go_rem (int m + 1) (int ?n) = int ((m + 1) mod ?n)" for m
  proof -
    have "go_rem (int m + 1) (int ?n) = (int m + 1) mod int ?n"
      by (rule go_rem_nonneg) simp
    also have "\<dots> = int ((m + 1) mod ?n)"
      by (simp add: zmod_int add.commute)
    finally show ?thesis .
  qed
  have r2: "go_rem (int ?idx + 1) (int ?n) = int ((?idx + 1) mod ?n)"
    by (rule r2')
  have g: "go_index (filesQueue s) (int ?idx) = Inr (filesQueue s ! ?idx)"
    using lt by (simp add: go_index_def)
  have p: "probe_order s ! i = filesQueue s ! ?idx"
    using c i by (rule probe_order_nth)
  have a: "int i + 1 = 1 + int i" by simp
  show ?thesis
    by (subst pick_loop.simps) (simp add: i r r2 g p isCompleted_def a)
qed

lemma pick_loop_none:
  "0 \<le> currentFileIndex s \<Longrightarrow> i \<le> length (filesQueue s) \<Longrightarrow>
   (\<forall>j. i \<le> j \<and> j < length (filesQueue s) \<longrightarrow> isCompleted s (probe_order s ! j)) \<Longrightarrow>
   pick_loop s (int i) = Inr ([], s)"
proof (induction "length (filesQueue s) - i" arbitrary: i)
  case 0
  then have "\<not> int i < int (length (filesQueue s))" by simp
  then show ?case by (subst pick_loop.simps) simp
next
  case (Suc d)
  then have i: "i < length (filesQueue s)" by simp
  have "pick_loop s (int (Suc i)) = Inr ([], s)"
    using Suc.hyps(1) [of "Suc i"] Suc.hyps(2) Suc.prems i by simp
  then have "pick_loop s (1 + int i) = Inr ([], s)" by simp
  with Suc.prems i show ?case by (simp add: pick_loop_unfold)
qed

lemma pick_loop_found:
  "0 \<le> currentFileIndex s \<Longrightarrow> i \<le> k \<Longrightarrow> k < length (filesQueue s) \<Longrightarrow>
   (\<forall>j. i \<le> j \<and> j < k \<longrightarrow> isCompleted s (probe_order s ! j)) \<Longrightarrow>
   \<not> isCompleted s (probe_order s ! k) \<Longrightarrow>
   pick_loop s (int i) =
     Inr (probe_order s ! k,
          s\<lparr>currentFileIndex :=
              int (((nat (currentFileIndex s) + k) mod length (filesQueue s) + 1)
                     mod length (filesQueue s))\<rparr>)"
proof (induction "k - i" arbitrary: i)
  case 0
  then have "i = k" by simp
  with 0 show ?case by (simp add: pick_loop_unfold)
next
  case (Suc d)
  then have i: "i < k" by simp
  with Suc.prems have ci: "isCompleted s (probe_order s ! i)" by simp
  have "pick_loop s (int (Suc i)) =
     Inr (probe_order s ! k,
          s\<lparr>currentFileIndex :=
              int (((nat (currentFileIndex s) + k) mod length (filesQueue s) + 1)
                     mod length (filesQueue s))\<rparr>)"
    using Suc.hyps(1) [of "Suc i"] Suc.hyps(2) Suc.prems i by simp
  then have "pick_loop s (1 + int i) =
     Inr (probe_order s ! k,
          s\<lparr>currentFileIndex :=
              int (((nat (currentFileIndex s) + k) mod length (filesQueue s) + 1)
                     mod length (filesQueue s))\<rparr>)"
    by simp
  with Suc.prems i ci show ?case by (simp add: pick_loop_unfold)
qed

section \<open>The tracking table: \<open>setFileStatus\<close>\<close>

text \<open>
  C1. For every state, file name, requested status and row count: when the file's status
  is Completed and the requested status is not, \<open>setFileStatus\<close> prints the refusal and
  changes nothing else, so status and row count stay as they were; in every other case the
  entry of the file becomes exactly the requested pair and no other entry changes. Hence
  after any call the entry is either the old pair or the new pair, never a mixture, and
  an entry that is Completed stays Completed.
\<close>

theorem setFileStatus_pair:
  "(Status (lockAt s file) = Completed \<and> status \<noteq> Completed \<longrightarrow>
      setFileStatus s file status n =
        println (''Cannot change status from completed to '' @ status
                   @ '' for file '' @ file) s
      \<and> lock (setFileStatus s file status n) = lock s
      \<and> lockAt (setFileStatus s file status n) file = lockAt s file)
   \<and> (\<not> (Status (lockAt s file) = Completed \<and> status \<noteq> Completed) \<longrightarrow>
      lockAt (setFileStatus s file status n) file
        = \<lparr>Status = status, ReadLinesNumber = n\<rparr>
      \<and> (\<forall>g. g \<noteq> file \<longrightarrow> lock (setFileStatus s file status n) g = lock s g))
   \<and> (lockAt (setFileStatus s file status n) file = lockAt s file
      \<or> lockAt (setFileStatus s file status n) file
           = \<lparr>Status = status, ReadLinesNumber = n\<rparr>)
   \<and> (Status (lockAt s file) = Completed \<longrightarrow>
      Status (lockAt (setFileStatus s file status n) file) = Completed)"
proof (intro conjI impI allI)
  show "lockAt (setFileStatus s file status n) file = lockAt s file
      \<or> lockAt (setFileStatus s file status n) file
           = \<lparr>Status = status, ReadLinesNumber = n\<rparr>"
    by (simp add: lockAt_setFileStatus)
qed (simp_all add: lockAt_setFileStatus, simp_all add: setFileStatus_def)

lemma example_world_lockAt:
  "lockAt example_world ''a.csv'' = \<lparr>Status = Completed, ReadLinesNumber = 7\<rparr>"
  "lockAt example_world ''b.csv'' = \<lparr>Status = Reading, ReadLinesNumber = 3\<rparr>"
  "lockAt example_world ''c.csv'' = \<lparr>Status = NotRead, ReadLinesNumber = 0\<rparr>"
  by (simp_all add: example_world_def lockAt_def)

theorem setFileStatus_pair_witness:
  "(Status (lockAt example_world ''a.csv'') = Completed \<and> NotRead \<noteq> Completed)
   \<and> lock (setFileStatus example_world ''a.csv'' NotRead 3) = lock example_world
   \<and> lockAt (setFileStatus example_world ''a.csv'' NotRead 3) ''a.csv''
       = \<lparr>Status = Completed, ReadLinesNumber = 7\<rparr>
   \<and> \<not> (Status (lockAt example_world ''b.csv'') = Completed \<and> NotRead \<noteq> Completed)
   \<and> lockAt (setFileStatus example_world ''b.csv'' NotRead 6) ''b.csv''
       = \<lparr>Status = NotRead, ReadLinesNumber = 6\<rparr>"
proof -
  have a: "Status (lockAt example_world ''a.csv'') = Completed \<and> NotRead \<noteq> Completed"
    by (simp add: example_world_lockAt)
  have b: "\<not> (Status (lockAt example_world ''b.csv'') = Completed \<and> NotRead \<noteq> Completed)"
    by (simp add: example_world_lockAt)
  from a setFileStatus_pair [of example_world "''a.csv''" NotRead 3]
  have 1: "lock (setFileStatus example_world ''a.csv'' NotRead 3) = lock example_world"
    and 2: "lockAt (setFileStatus example_world ''a.csv'' NotRead 3) ''a.csv''
              = lockAt example_world ''a.csv''"
    by blast+
  from b setFileStatus_pair [of example_world "''b.csv''" NotRead 6]
  have 3: "lockAt (setFileStatus example_world ''b.csv'' NotRead 6) ''b.csv''
             = \<lparr>Status = NotRead, ReadLinesNumber = 6\<rparr>"
    by blast
  from a b 1 2 3 show ?thesis
    by (simp only: example_world_lockAt simp_thms)
qed

section \<open>The round-robin picker: \<open>pickNextFile\<close>\<close>

lemma probe_order_nth_mem:
  "j < length (filesQueue s) \<Longrightarrow> probe_order s ! j \<in> set (filesQueue s)"
  using nth_mem [of j "probe_order s"] by simp

lemma pickNextFile_none:
  assumes "0 \<le> currentFileIndex s" and "\<forall>f \<in> set (filesQueue s). isCompleted s f"
  shows "pickNextFile s = Inr ([], s)"
proof (cases "filesQueue s = []")
  case True
  then show ?thesis by (simp add: pickNextFile_def)
next
  case False
  have "\<forall>j. 0 \<le> j \<and> j < length (filesQueue s) \<longrightarrow> isCompleted s (probe_order s ! j)"
  proof (intro allI impI)
    fix j assume "0 \<le> j \<and> j < length (filesQueue s)"
    then have "probe_order s ! j \<in> set (filesQueue s)" by (simp add: probe_order_nth_mem)
    with assms(2) show "isCompleted s (probe_order s ! j)" by blast
  qed
  with assms(1) have "pick_loop s (int 0) = Inr ([], s)"
    by (intro pick_loop_none) simp_all
  with False show ?thesis by (simp add: pickNextFile_def)
qed

lemma pickNextFile_at:
  assumes c: "0 \<le> currentFileIndex s" and k: "k < length (filesQueue s)"
    and before: "\<forall>j<k. isCompleted s (probe_order s ! j)"
    and at: "\<not> isCompleted s (probe_order s ! k)"
  shows "pickNextFile s =
     Inr (probe_order s ! k,
          s\<lparr>currentFileIndex :=
              int (((nat (currentFileIndex s) + k) mod length (filesQueue s) + 1)
                     mod length (filesQueue s))\<rparr>)"
proof -
  from k have ne: "length (filesQueue s) \<noteq> 0" by auto
  have "pick_loop s (int 0) =
     Inr (probe_order s ! k,
          s\<lparr>currentFileIndex :=
              int (((nat (currentFileIndex s) + k) mod length (filesQueue s) + 1)
                     mod length (filesQueue s))\<rparr>)"
    using c k before at by (intro pick_loop_found) simp_all
  with ne show ?thesis by (simp add: pickNextFile_def)
qed

lemma first_eligible:
  assumes "\<exists>f \<in> set xs. \<not> P f"
  shows "\<exists>k<length xs. (\<forall>j<k. P (xs ! j)) \<and> \<not> P (xs ! k)"
  using assms
proof (induction xs)
  case Nil
  then show ?case by simp
next
  case (Cons x xs)
  show ?case
  proof (cases "P x")
    case False
    then have "0 < length (x # xs) \<and> (\<forall>j<0. P ((x # xs) ! j)) \<and> \<not> P ((x # xs) ! 0)"
      by simp
    then show ?thesis by (rule exI [of _ 0])
  next
    case True
    with Cons.prems have "\<exists>f \<in> set xs. \<not> P f" by simp
    from Cons.IH [OF this] obtain k where k: "k < length xs"
      and b: "\<forall>j<k. P (xs ! j)" and a: "\<not> P (xs ! k)" by blast
    have "\<forall>j<Suc k. P ((x # xs) ! j)"
    proof (intro allI impI)
      fix j assume "j < Suc k"
      with True b show "P ((x # xs) ! j)" by (cases j) simp_all
    qed
    with k a have "Suc k < length (x # xs) \<and> (\<forall>j<Suc k. P ((x # xs) ! j))
        \<and> \<not> P ((x # xs) ! Suc k)" by simp
    then show ?thesis by (rule exI [of _ "Suc k"])
  qed
qed

lemma pickNextFile_picked:
  assumes "pickNextFile s = Inr (f, t)" and "0 \<le> currentFileIndex s"
  shows "(f = [] \<and> t = s \<and> (\<forall>g \<in> set (filesQueue s). isCompleted s g))
       \<or> (f \<in> set (filesQueue s) \<and> \<not> isCompleted s f
          \<and> (\<exists>c. 0 \<le> c \<and> t = s\<lparr>currentFileIndex := c\<rparr>))"
proof (cases "\<forall>g \<in> set (filesQueue s). isCompleted s g")
  case True
  with assms pickNextFile_none [of s] show ?thesis by simp
next
  case False
  then have "\<exists>g \<in> set (probe_order s). \<not> isCompleted s g" by simp
  from first_eligible [OF this] obtain k where k: "k < length (filesQueue s)"
    and b: "\<forall>j<k. isCompleted s (probe_order s ! j)"
    and a: "\<not> isCompleted s (probe_order s ! k)" by auto
  from pickNextFile_at [OF assms(2) k b a] assms(1)
  have f: "f = probe_order s ! k" and t: "t = s\<lparr>currentFileIndex :=
              int (((nat (currentFileIndex s) + k) mod length (filesQueue s) + 1)
                     mod length (filesQueue s))\<rparr>" by simp_all
  from k have "probe_order s ! k \<in> set (filesQueue s)" by (rule probe_order_nth_mem)
  moreover have "\<exists>c. 0 \<le> c \<and> t = s\<lparr>currentFileIndex := c\<rparr>"
    unfolding t by (intro exI conjI) (rule of_nat_0_le_iff, rule refl)
  ultimately show ?thesis using f a by blast
qed

text \<open>
  C3. In a state whose cursor is not negative, \<open>pickNextFile\<close> probes the queue circularly
  from the cursor, at most once around: when the queue is empty or all its files are
  Completed it returns none and leaves the state as it is; otherwise there is a first
  probe \<open>k\<close> below the queue's length whose file is not Completed, every file probed
  before it is Completed, that file is returned and the cursor becomes the position just
  behind it (modulo the length). When no queued name is empty (the empty string is how
  none is returned), none is returned exactly when the queue is empty or all Completed.
\<close>

theorem pickNextFile_round_robin:
  assumes c: "0 \<le> currentFileIndex s"
  shows "(filesQueue s = [] \<or> (\<forall>f \<in> set (filesQueue s). isCompleted s f)
            \<longrightarrow> pickNextFile s = Inr ([], s))
    \<and> ((\<exists>f \<in> set (filesQueue s). \<not> isCompleted s f) \<longrightarrow>
         (\<exists>k<length (filesQueue s).
            (\<forall>j<k. isCompleted s
                (filesQueue s ! ((nat (currentFileIndex s) + j) mod length (filesQueue s))))
          \<and> \<not> isCompleted s
                (filesQueue s ! ((nat (currentFileIndex s) + k) mod length (filesQueue s)))
          \<and> pickNextFile s =
              Inr (filesQueue s ! ((nat (currentFileIndex s) + k) mod length (filesQueue s)),
                   s\<lparr>currentFileIndex :=
                       int (((nat (currentFileIndex s) + k) mod length (filesQueue s) + 1)
                              mod length (filesQueue s))\<rparr>)))
    \<and> ([] \<notin> set (filesQueue s) \<longrightarrow>
         ((\<exists>t. pickNextFile s = Inr ([], t))
            \<longleftrightarrow> (filesQueue s = [] \<or> (\<forall>f \<in> set (filesQueue s). isCompleted s f))))"
proof (intro conjI impI)
  assume "filesQueue s = [] \<or> (\<forall>f \<in> set (filesQueue s). isCompleted s f)"
  then have "\<forall>f \<in> set (filesQueue s). isCompleted s f" by auto
  with c show "pickNextFile s = Inr ([], s)" by (rule pickNextFile_none)
next
  let ?n = "length (filesQueue s)"
  assume "\<exists>f \<in> set (filesQueue s). \<not> isCompleted s f"
  then have "\<exists>g \<in> set (probe_order s). \<not> isCompleted s g" by simp
  from first_eligible [OF this] obtain k where k: "k < ?n"
    and b: "\<forall>j<k. isCompleted s (probe_order s ! j)"
    and a: "\<not> isCompleted s (probe_order s ! k)" by auto
  have nth: "probe_order s ! j = filesQueue s ! ((nat (currentFileIndex s) + j) mod ?n)"
    if "j \<le> k" for j
    using c k that by (intro probe_order_nth) simp_all
  from pickNextFile_at [OF c k b a] b a nth k
  show "\<exists>k<?n.
            (\<forall>j<k. isCompleted s (filesQueue s ! ((nat (currentFileIndex s) + j) mod ?n)))
          \<and> \<not> isCompleted s (filesQueue s ! ((nat (currentFileIndex s) + k) mod ?n))
          \<and> pickNextFile s =
              Inr (filesQueue s ! ((nat (currentFileIndex s) + k) mod ?n),
                   s\<lparr>currentFileIndex :=
                       int (((nat (currentFileIndex s) + k) mod ?n + 1) mod ?n)\<rparr>)"
    by (intro exI [of _ k]) simp
next
  assume ne: "[] \<notin> set (filesQueue s)"
  show "(\<exists>t. pickNextFile s = Inr ([], t))
            \<longleftrightarrow> (filesQueue s = [] \<or> (\<forall>f \<in> set (filesQueue s). isCompleted s f))"
  proof
    assume "\<exists>t. pickNextFile s = Inr ([], t)"
    then obtain t where "pickNextFile s = Inr ([], t)" ..
    from pickNextFile_picked [OF this c] ne
    show "filesQueue s = [] \<or> (\<forall>f \<in> set (filesQueue s). isCompleted s f)" by auto
  next
    assume "filesQueue s = [] \<or> (\<forall>f \<in> set (filesQueue s). isCompleted s f)"
    then have "\<forall>f \<in> set (filesQueue s). isCompleted s f" by auto
    with c have "pickNextFile s = Inr ([], s)" by (rule pickNextFile_none)
    then show "\<exists>t. pickNextFile s = Inr ([], t)" ..
  qed
qed

lemma example_world_fields:
  "filesQueue example_world = [''a.csv'', ''b.csv'', ''c.csv'']"
  "currentFileIndex example_world = 2"
  "activeWorkers example_world = 1"
  "maxThreads example_world = 4"
  "workers example_world = [''b.csv'']"
  by (simp_all add: example_world_def StartWatching_def NewFileWatcherService_def
        MAX_THREADS_COUNT_def)

lemma example_world_completed:
  "isCompleted example_world ''a.csv''"
  "\<not> isCompleted example_world ''b.csv''"
  "\<not> isCompleted example_world ''c.csv''"
  by (simp_all add: isCompleted_def example_world_lockAt)

theorem pickNextFile_round_robin_witness:
  "0 \<le> currentFileIndex example_world
   \<and> (\<exists>f \<in> set (filesQueue example_world). \<not> isCompleted example_world f)
   \<and> pickNextFile example_world = Inr (''c.csv'', example_world\<lparr>currentFileIndex := 0\<rparr>)
   \<and> 0 \<le> currentFileIndex (example_world\<lparr>currentFileIndex := 0\<rparr>)
   \<and> pickNextFile (example_world\<lparr>currentFileIndex := 0\<rparr>)
       = Inr (''b.csv'', example_world\<lparr>currentFileIndex := 2\<rparr>)"
proof -
  let ?w = "example_world" and ?v = "example_world\<lparr>currentFileIndex := 0\<rparr>"
  have c: "0 \<le> currentFileIndex ?w" by (simp add: example_world_fields)
  have e: "\<exists>f \<in> set (filesQueue ?w). \<not> isCompleted ?w f"
    by (simp add: example_world_fields example_world_completed)
  from pickNextFile_round_robin [OF c] e
  obtain k where k: "k < length (filesQueue ?w)"
    and b: "\<forall>j<k. isCompleted ?w
                (filesQueue ?w ! ((nat (currentFileIndex ?w) + j) mod length (filesQueue ?w)))"
    and p: "pickNextFile ?w =
              Inr (filesQueue ?w ! ((nat (currentFileIndex ?w) + k) mod length (filesQueue ?w)),
                   ?w\<lparr>currentFileIndex :=
                       int (((nat (currentFileIndex ?w) + k) mod length (filesQueue ?w) + 1)
                              mod length (filesQueue ?w))\<rparr>)"
    by blast
  have "k = 0"
  proof (rule ccontr)
    assume "k \<noteq> 0"
    with b have "isCompleted ?w
        (filesQueue ?w ! ((nat (currentFileIndex ?w) + 0) mod length (filesQueue ?w)))"
      by blast
    then show False by (simp add: example_world_fields example_world_completed)
  qed
  with p have 1: "pickNextFile ?w = Inr (''c.csv'', ?v)"
    by (simp add: example_world_fields)
  have vq: "filesQueue ?v = [''a.csv'', ''b.csv'', ''c.csv'']" "currentFileIndex ?v = 0"
    by (simp_all add: example_world_fields)
  have vc: "isCompleted ?v ''a.csv''" "\<not> isCompleted ?v ''b.csv''"
    using example_world_completed by (simp_all add: isCompleted_def lockAt_def)
  have c': "0 \<le> currentFileIndex ?v" by simp
  have e': "\<exists>f \<in> set (filesQueue ?v). \<not> isCompleted ?v f"
    by (simp add: vq vc)
  from pickNextFile_round_robin [OF c'] e'
  obtain k' where k': "k' < length (filesQueue ?v)"
    and b': "\<forall>j<k'. isCompleted ?v
                (filesQueue ?v ! ((nat (currentFileIndex ?v) + j) mod length (filesQueue ?v)))"
    and a': "\<not> isCompleted ?v
                (filesQueue ?v ! ((nat (currentFileIndex ?v) + k') mod length (filesQueue ?v)))"
    and p': "pickNextFile ?v =
              Inr (filesQueue ?v ! ((nat (currentFileIndex ?v) + k') mod length (filesQueue ?v)),
                   ?v\<lparr>currentFileIndex :=
                       int (((nat (currentFileIndex ?v) + k') mod length (filesQueue ?v) + 1)
                              mod length (filesQueue ?v))\<rparr>)"
    by blast
  have "k' = 1"
  proof (rule ccontr)
    assume n1: "k' \<noteq> 1"
    show False
    proof (cases "k' = 0")
      case True
      with a' show False by (simp add: vq vc)
    next
      case False
      with n1 have "1 < k'" by simp
      with b' have "isCompleted ?v
        (filesQueue ?v ! ((nat (currentFileIndex ?v) + 1) mod length (filesQueue ?v)))"
        by blast
      then show False by (simp add: vq vc)
    qed
  qed
  with p' have 2: "pickNextFile ?v = Inr (''b.csv'', ?w\<lparr>currentFileIndex := 2\<rparr>)"
    by (simp add: vq)
  from c e 1 c' 2 show ?thesis by blast
qed

section \<open>Round-robin fairness\<close>

lemma isCompleted_cursor [simp]:
  "isCompleted (s\<lparr>currentFileIndex := c\<rparr>) f = isCompleted s f"
  by (simp add: isCompleted_def lockAt_def)

lemma probe_order_after:
  assumes "0 \<le> currentFileIndex s"
  shows "probe_order (s\<lparr>currentFileIndex :=
              int (((nat (currentFileIndex s) + k) mod length (filesQueue s) + 1)
                     mod length (filesQueue s))\<rparr>)
         = rotate (Suc k) (probe_order s)"
proof -
  let ?q = "filesQueue s" and ?c = "nat (currentFileIndex s)"
  have "rotate (((?c + k) mod length ?q + 1) mod length ?q) ?q
          = rotate ((?c + k) mod length ?q + 1) ?q"
    by (rule rotate_conv_mod [symmetric])
  also have "\<dots> = rotate1 (rotate ((?c + k) mod length ?q) ?q)" by simp
  also have "rotate ((?c + k) mod length ?q) ?q = rotate (?c + k) ?q"
    by (rule rotate_conv_mod [symmetric])
  also have "rotate1 (rotate (?c + k) ?q) = rotate (Suc k) (rotate ?c ?q)"
    by (simp add: rotate_rotate add.commute)
  finally show ?thesis by (simp add: probe_order_def)
qed

lemma rotate_past:
  "rotate (Suc (length xs)) (xs @ f # ys) = ys @ xs @ [f]"
proof -
  have "rotate (length (xs @ [f])) ((xs @ [f]) @ ys) = ys @ (xs @ [f])"
    by (rule rotate_append)
  then show ?thesis by simp
qed

lemma filter_split_first:
  assumes "filter P xs = f # rest"
  shows "\<exists>us vs. xs = us @ f # vs \<and> (\<forall>u \<in> set us. \<not> P u) \<and> P f \<and> rest = filter P vs"
  using assms
proof (induction xs)
  case Nil
  then show ?case by simp
next
  case (Cons x xs)
  show ?case
  proof (cases "P x")
    case True
    with Cons.prems have "x = f" "rest = filter P xs" by simp_all
    with True have "x # xs = [] @ f # xs \<and> (\<forall>u \<in> set []. \<not> P u) \<and> P f \<and> rest = filter P xs"
      by simp
    then show ?thesis by blast
  next
    case False
    with Cons.prems have "filter P xs = f # rest" by simp
    from Cons.IH [OF this] obtain us vs where
      "xs = us @ f # vs" "\<forall>u \<in> set us. \<not> P u" "P f" "rest = filter P vs" by blast
    with False have "x # xs = (x # us) @ f # vs \<and> (\<forall>u \<in> set (x # us). \<not> P u) \<and> P f
        \<and> rest = filter P vs" by simp
    then show ?thesis by blast
  qed
qed

lemma pick_first:
  assumes c: "0 \<le> currentFileIndex s" and e: "eligible_order s = f # rest"
  shows "\<exists>t. pickNextFile s = Inr (f, t) \<and> 0 \<le> currentFileIndex t
           \<and> filesQueue t = filesQueue s \<and> (\<forall>g. isCompleted t g = isCompleted s g)
           \<and> eligible_order t = rest @ [f]"
proof -
  from e have "filter (\<lambda>f. \<not> isCompleted s f) (probe_order s) = f # rest"
    by (simp add: eligible_order_def)
  from filter_split_first [OF this] obtain us vs where
    p: "probe_order s = us @ f # vs" and u: "\<forall>u \<in> set us. isCompleted s u"
    and f: "\<not> isCompleted s f" and r: "rest = filter (\<lambda>f. \<not> isCompleted s f) vs"
    by auto
  let ?k = "length us"
  let ?t = "s\<lparr>currentFileIndex :=
              int (((nat (currentFileIndex s) + ?k) mod length (filesQueue s) + 1)
                     mod length (filesQueue s))\<rparr>"
  have "length (probe_order s) = length (us @ f # vs)" by (simp only: p)
  then have k: "?k < length (filesQueue s)" by simp
  have b: "\<forall>j<?k. isCompleted s (probe_order s ! j)"
    using u p by (simp add: nth_append)
  have a: "\<not> isCompleted s (probe_order s ! ?k)"
    using f p by simp
  have at: "probe_order s ! ?k = f" using p by simp
  from pickNextFile_at [OF c k b a] at have 1: "pickNextFile s = Inr (f, ?t)" by simp
  have "probe_order ?t = rotate (Suc ?k) (probe_order s)"
    using c by (rule probe_order_after)
  also have "\<dots> = vs @ us @ [f]" unfolding p by (rule rotate_past)
  finally have "eligible_order ?t = filter (\<lambda>f. \<not> isCompleted s f) (vs @ us @ [f])"
    by (simp add: eligible_order_def)
  with u f r have 2: "eligible_order ?t = rest @ [f]" by simp
  have 3: "0 \<le> currentFileIndex ?t" "filesQueue ?t = filesQueue s"
    "\<forall>g. isCompleted ?t g = isCompleted s g" by simp_all
  from 1 2 3 show ?thesis by blast
qed

lemma same_pass_eligible:
  assumes "same_pass s t"
  shows "eligible_order t = eligible_order s" "currentFileIndex t = currentFileIndex s"
    "filesQueue t = filesQueue s"
proof -
  from assms have q: "filesQueue t = filesQueue s" and c: "currentFileIndex t = currentFileIndex s"
    and e: "\<forall>f \<in> set (filesQueue s). isCompleted t f = isCompleted s f"
    by (simp_all add: same_pass_def)
  from q c have p: "probe_order t = probe_order s" by (simp add: probe_order_def)
  have "filter (\<lambda>f. \<not> isCompleted t f) (probe_order s)
          = filter (\<lambda>f. \<not> isCompleted s f) (probe_order s)"
    using e by (intro filter_cong) simp_all
  with p show "eligible_order t = eligible_order s" by (simp add: eligible_order_def)
  show "currentFileIndex t = currentFileIndex s" by (rule c)
  show "filesQueue t = filesQueue s" by (rule q)
qed

lemma pass_prefix:
  "pass s fs t \<Longrightarrow> 0 \<le> currentFileIndex s \<Longrightarrow> length fs \<le> length (eligible_order s) \<Longrightarrow>
   fs = take (length fs) (eligible_order s)"
proof (induction rule: pass.induct)
  case (pass_done s)
  then show ?case by simp
next
  case (pass_pick s f s1 s2 fs t)
  from pass_pick.prems(2) obtain f0 rest where e: "eligible_order s = f0 # rest"
    by (cases "eligible_order s") simp_all
  from pick_first [OF pass_pick.prems(1) e] pass_pick.hyps(1)
  have f: "f = f0" and c1: "0 \<le> currentFileIndex s1" and e1: "eligible_order s1 = rest @ [f0]"
    by auto
  from same_pass_eligible [OF pass_pick.hyps(2)] c1 e1
  have c2: "0 \<le> currentFileIndex s2" and e2: "eligible_order s2 = rest @ [f0]" by simp_all
  from pass_pick.prems(2) e have l: "length fs \<le> length rest" by simp
  with pass_pick.IH [OF c2] e2 have "fs = take (length fs) (rest @ [f0])" by simp
  with l have "fs = take (length fs) rest" by simp
  with f e show ?case by simp
qed

lemma pass_exists:
  "0 \<le> currentFileIndex s \<Longrightarrow> m \<le> length (eligible_order s) \<Longrightarrow>
   \<exists>fs t. pass s fs t \<and> length fs = m"
proof (induction m arbitrary: s)
  case 0
  have "pass s [] s" by (rule pass_done)
  then show ?case by fastforce
next
  case (Suc m)
  then obtain f0 rest where e: "eligible_order s = f0 # rest"
    by (cases "eligible_order s") simp_all
  from pick_first [OF Suc.prems(1) e] obtain s1 where
    p: "pickNextFile s = Inr (f0, s1)" and c1: "0 \<le> currentFileIndex s1"
    and e1: "eligible_order s1 = rest @ [f0]" by blast
  from Suc.prems(2) e e1 have "m \<le> length (eligible_order s1)" by simp
  from Suc.IH [OF c1 this] obtain fs t where ps: "pass s1 fs t" and l: "length fs = m" by blast
  have sp: "same_pass s1 s1" by (simp add: same_pass_def)
  have "pass s (f0 # fs) t" using p sp ps by (rule pass_pick)
  with l show ?case by fastforce
qed

lemma length_filter_rotate1: "length (filter P (rotate1 xs)) = length (filter P xs)"
  by (cases xs) simp_all

lemma length_filter_rotate: "length (filter P (rotate n xs)) = length (filter P xs)"
  by (induction n) (simp_all add: length_filter_rotate1)

lemma length_eligible_order:
  "length (eligible_order s) = length (filter (\<lambda>f. \<not> isCompleted s f) (filesQueue s))"
  by (simp add: eligible_order_def probe_order_def length_filter_rotate)

lemma set_eligible_order:
  "set (eligible_order s) = {f \<in> set (filesQueue s). \<not> isCompleted s f}"
  by (simp add: eligible_order_def)

lemma distinct_eligible_order:
  "distinct (filesQueue s) \<Longrightarrow> distinct (eligible_order s)"
  by (simp add: eligible_order_def probe_order_def)

text \<open>
  C6. Round-robin fairness. Take a state whose cursor is not negative and whose queue
  holds no name twice, and let \<open>N\<close> be the number of queued files that are not Completed.
  A pass of \<open>N\<close> calls of \<open>pickNextFile\<close>, during which the queue stays as it is and no
  file becomes Completed, exists, and every such pass returns exactly the \<open>N\<close> files that
  are not Completed, each once, in the order of the queue read circularly from the
  cursor.
\<close>

theorem round_robin_fair:
  assumes c: "0 \<le> currentFileIndex s" and d: "distinct (filesQueue s)"
  shows "(\<exists>fs t. pass s fs t
            \<and> length fs = length (filter (\<lambda>f. \<not> isCompleted s f) (filesQueue s)))
    \<and> (\<forall>fs t. pass s fs t
            \<and> length fs = length (filter (\<lambda>f. \<not> isCompleted s f) (filesQueue s))
          \<longrightarrow> fs = eligible_order s \<and> distinct fs
              \<and> set fs = {f \<in> set (filesQueue s). \<not> isCompleted s f})"
proof (intro conjI allI impI)
  show "\<exists>fs t. pass s fs t
            \<and> length fs = length (filter (\<lambda>f. \<not> isCompleted s f) (filesQueue s))"
    using pass_exists [OF c, of "length (eligible_order s)"]
    by (simp add: length_eligible_order)
next
  fix fs t
  assume a: "pass s fs t
            \<and> length fs = length (filter (\<lambda>f. \<not> isCompleted s f) (filesQueue s))"
  then have l: "length fs = length (eligible_order s)" by (simp add: length_eligible_order)
  from a have "pass s fs t" ..
  then have "fs = take (length fs) (eligible_order s)"
    using c l by (intro pass_prefix) simp_all
  with l have e: "fs = eligible_order s" by simp
  then show "fs = eligible_order s" .
  from e d show "distinct fs" by (simp add: distinct_eligible_order)
  from e show "set fs = {f \<in> set (filesQueue s). \<not> isCompleted s f}"
    by (simp add: set_eligible_order)
qed


lemma example_world_probe_order:
  "probe_order example_world = [''c.csv'', ''a.csv'', ''b.csv'']"
  "probe_order (example_world\<lparr>currentFileIndex := 0\<rparr>) = [''a.csv'', ''b.csv'', ''c.csv'']"
  by (simp_all add: probe_order_def example_world_fields eval_nat_numeral)

lemma example_pick_c:
  "pickNextFile example_world = Inr (''c.csv'', example_world\<lparr>currentFileIndex := 0\<rparr>)"
  using pickNextFile_at [of example_world 0]
  by (simp add: example_world_probe_order example_world_fields example_world_completed)

lemma example_pick_b:
  "pickNextFile (example_world\<lparr>currentFileIndex := 0\<rparr>)
     = Inr (''b.csv'', example_world\<lparr>currentFileIndex := 2\<rparr>)"
  using pickNextFile_at [of "example_world\<lparr>currentFileIndex := 0\<rparr>" 1]
  by (simp add: example_world_probe_order example_world_fields example_world_completed)

theorem round_robin_fair_witness:
  "0 \<le> currentFileIndex example_world \<and> distinct (filesQueue example_world)
   \<and> pass example_world [''c.csv'', ''b.csv''] (example_world\<lparr>currentFileIndex := 2\<rparr>)
   \<and> length [''c.csv'', ''b.csv'']
       = length (filter (\<lambda>f. \<not> isCompleted example_world f) (filesQueue example_world))
   \<and> [''c.csv'', ''b.csv''] = eligible_order example_world
   \<and> distinct [''c.csv'', ''b.csv'']
   \<and> set [''c.csv'', ''b.csv'']
       = {f \<in> set (filesQueue example_world). \<not> isCompleted example_world f}"
proof -
  let ?w = "example_world"
  have c: "0 \<le> currentFileIndex ?w" by (simp add: example_world_fields)
  have d: "distinct (filesQueue ?w)" by (simp add: example_world_fields)
  have s0: "same_pass (?w\<lparr>currentFileIndex := 0\<rparr>) (?w\<lparr>currentFileIndex := 0\<rparr>)"
    and s2: "same_pass (?w\<lparr>currentFileIndex := 2\<rparr>) (?w\<lparr>currentFileIndex := 2\<rparr>)"
    by (simp_all add: same_pass_def)
  have "pass (?w\<lparr>currentFileIndex := 2\<rparr>) [] (?w\<lparr>currentFileIndex := 2\<rparr>)"
    by (rule pass_done)
  with example_pick_b s2
  have "pass (?w\<lparr>currentFileIndex := 0\<rparr>) [''b.csv''] (?w\<lparr>currentFileIndex := 2\<rparr>)"
    by (rule pass_pick)
  with example_pick_c s0
  have p: "pass ?w [''c.csv'', ''b.csv''] (?w\<lparr>currentFileIndex := 2\<rparr>)"
    by (rule pass_pick)
  have l: "length [''c.csv'', ''b.csv'']
       = length (filter (\<lambda>f. \<not> isCompleted ?w f) (filesQueue ?w))"
    by (simp add: example_world_fields example_world_completed)
  from round_robin_fair [OF c d] p l
  have "[''c.csv'', ''b.csv''] = eligible_order ?w \<and> distinct [''c.csv'', ''b.csv'']
   \<and> set [''c.csv'', ''b.csv''] = {f \<in> set (filesQueue ?w). \<not> isCompleted ?w f}"
    by blast
  with c d p l show ?thesis by blast
qed

section \<open>Facts about the worker and the dispatcher\<close>

lemma appendToResultFile_fields [simp]:
  "lock (appendToResultFile s env ch) = lock s"
  "activeWorkers (appendToResultFile s env ch) = activeWorkers s"
  "maxThreads (appendToResultFile s env ch) = maxThreads s"
  "filesQueue (appendToResultFile s env ch) = filesQueue s"
  "currentFileIndex (appendToResultFile s env ch) = currentFileIndex s"
  "newFilesEvent (appendToResultFile s env ch) = newFilesEvent s"
  "workers (appendToResultFile s env ch) = workers s"
  "running (appendToResultFile s env ch) = running s"
  "scanBlocked (appendToResultFile s env ch) = scanBlocked s"
  by (simp_all add: appendToResultFile_def split: option.splits)

lemma lockAt_appendToResultFile [simp]:
  "lockAt (appendToResultFile s env ch) f = lockAt s f"
  by (simp add: lockAt_def)

lemma lockAt_write_rows [simp]: "lockAt (write_rows werr i rows s) f = lockAt s f"
  by (simp add: lockAt_def)

lemma line_of_mk_row:
  "field_of (mk_row cols) ''id'' @ CHR '','' # field_of (mk_row cols) ''name'' = line_of cols"
  by (simp add: field_of_def mk_row_def line_of_def)

lemma lockAt_other_updates [simp]:
  "lockAt (s\<lparr>activeWorkers := a\<rparr>) f = lockAt s f"
  "lockAt (s\<lparr>workers := w\<rparr>) f = lockAt s f"
  "lockAt (s\<lparr>running := r\<rparr>) f = lockAt s f"
  "lockAt (s\<lparr>currentFileIndex := c\<rparr>) f = lockAt s f"
  "lockAt (s\<lparr>newFilesEvent := e\<rparr>) f = lockAt s f"
  by (simp_all add: lockAt_def)

lemma appendToResultFile_ok:
  assumes "sinkOpenErr env = None" and "\<forall>i. sinkWriteErr env i = None"
  shows "resultFile (appendToResultFile s env (map mk_row chunk))
           = resultFile s @ map line_of chunk"
  using assms
  by (simp add: appendToResultFile_def write_rows_ok comp_def line_of_mk_row)

lemma appendToResultFile_Nil [simp]:
  "resultFile (appendToResultFile s env []) = resultFile s"
  by (simp add: appendToResultFile_def split: option.splits)


lemma read_loop_next_chunk:
  assumes "\<forall>cols \<in> set (next_chunk reads off). 2 \<le> length cols"
  shows "read_loop reads off t [] =
           Inr (t + int (length (next_chunk reads off)), map mk_row (next_chunk reads off))"
  using read_loop_chunk [of "[]" off reads t] assms
  by (simp add: next_chunk_def MAX_CHUNK_SIZE_def)

lemma readFile_opened:
  assumes o: "openResult env = Inr reads"
    and wf: "\<forall>cols \<in> set (next_chunk reads (ReadLinesNumber (lockAt s file))). 2 \<le> length cols"
  shows "\<exists>s'. readFile s file env = Inr s'
     \<and> lockAt s' file =
         (if length (next_chunk reads (ReadLinesNumber (lockAt s file))) < 3
          then \<lparr>Status = Completed, ReadLinesNumber = ReadLinesNumber (lockAt s file)
                   + int (length (next_chunk reads (ReadLinesNumber (lockAt s file))))\<rparr>
          else if isCompleted s file then lockAt s file
          else \<lparr>Status = NotRead, ReadLinesNumber = ReadLinesNumber (lockAt s file)
                   + int (length (next_chunk reads (ReadLinesNumber (lockAt s file))))\<rparr>)
     \<and> (\<forall>g. g \<noteq> file \<longrightarrow> lockAt s' g = lockAt s g)
     \<and> activeWorkers s' = activeWorkers s - 1 \<and> maxThreads s' = maxThreads s
     \<and> filesQueue s' = filesQueue s \<and> currentFileIndex s' = currentFileIndex s
     \<and> workers s' = workers s
     \<and> (sinkOpenErr env = None \<and> (\<forall>i. sinkWriteErr env i = None) \<longrightarrow>
          resultFile s' = resultFile s @
             map line_of (next_chunk reads (ReadLinesNumber (lockAt s file))))
     \<and> (next_chunk reads (ReadLinesNumber (lockAt s file)) = [] \<longrightarrow>
          resultFile s' = resultFile s)"
proof -
  let ?o = "ReadLinesNumber (lockAt s file)"
  let ?ch = "next_chunk reads ?o"
  have rl: "read_loop reads ?o ?o [] = Inr (?o + int (length ?ch), map mk_row ?ch)"
    using wf by (rule read_loop_next_chunk)
  show ?thesis
  proof (cases "length ?ch < 3")
    case True
    with o rl show ?thesis
      by (simp add: readFile_def Let_def MAX_CHUNK_SIZE_def lockAt_setFileStatus
            appendToResultFile_ok)
  next
    case False
    with o rl show ?thesis
      by (simp add: readFile_def Let_def MAX_CHUNK_SIZE_def lockAt_setFileStatus
            appendToResultFile_ok isCompleted_def)
  qed
qed


lemma pick_loop_result:
  "pick_loop s i = Inr (f, t) \<Longrightarrow>
   (f = [] \<and> t = s)
   \<or> (f \<in> set (filesQueue s) \<and> \<not> isCompleted s f \<and> (\<exists>c. t = s\<lparr>currentFileIndex := c\<rparr>))"
proof (induction s i rule: pick_loop.induct)
  case (1 s i)
  show ?case
  proof (cases "i < int (length (filesQueue s))")
    case False
    with "1.prems" show ?thesis by (subst (asm) pick_loop.simps) simp
  next
    case True
    let ?index = "go_rem (currentFileIndex s + i) (int (length (filesQueue s)))"
    show ?thesis
    proof (cases "go_index (filesQueue s) ?index")
      case (Inl p)
      with True "1.prems" show ?thesis by (subst (asm) pick_loop.simps) simp
    next
      case (Inr currentFile)
      then have mem: "currentFile \<in> set (filesQueue s)"
        by (auto simp add: go_index_def split: if_splits)
      show ?thesis
      proof (cases "Status (lockAt s currentFile) \<noteq> Completed")
        case True
        with \<open>i < int (length (filesQueue s))\<close> Inr "1.prems"
        have "f = currentFile"
          and "t = s\<lparr>currentFileIndex := go_rem (?index + 1) (int (length (filesQueue s)))\<rparr>"
          by (subst (asm) pick_loop.simps, simp)+
        with True mem show ?thesis by (auto simp add: isCompleted_def)
      next
        case False
        with \<open>i < int (length (filesQueue s))\<close> Inr "1.prems"
        have "pick_loop s (i + 1) = Inr (f, t)"
          by (subst (asm) pick_loop.simps) simp
        with "1.IH" [OF \<open>i < int (length (filesQueue s))\<close> refl Inr] False
        show ?thesis by simp
      qed
    qed
  qed
qed

lemma pickNextFile_result:
  "pickNextFile s = Inr (f, t) \<Longrightarrow>
   (f = [] \<and> t = s)
   \<or> (f \<in> set (filesQueue s) \<and> \<not> isCompleted s f \<and> (\<exists>c. t = s\<lparr>currentFileIndex := c\<rparr>))"
  by (cases "length (filesQueue s) = 0") (auto simp add: pickNextFile_def dest: pick_loop_result)

lemma processFiles_cases:
  assumes "processFiles s = Inr s1"
  shows "s1 = s \<or> (\<exists>c. s1 = s\<lparr>currentFileIndex := c\<rparr>)
    \<or> (activeWorkers s < maxThreads s
        \<and> (\<exists>f c. f \<noteq> [] \<and> f \<in> set (filesQueue s) \<and> \<not> isCompleted s f
              \<and> s1 = (setFileStatus (s\<lparr>currentFileIndex := c\<rparr>) f Reading
                         (ReadLinesNumber (lockAt s f)))
                       \<lparr>activeWorkers := activeWorkers s + 1, workers := workers s @ [f]\<rparr>))"
proof (cases "activeWorkers s \<ge> maxThreads s")
  case True
  with assms show ?thesis by (simp add: processFiles_def)
next
  case False
  show ?thesis
  proof (cases "pickNextFile s")
    case (Inl p)
    with False assms show ?thesis by (simp add: processFiles_def)
  next
    case (Inr ft)
    obtain f t where ft: "ft = (f, t)" by (cases ft)
    from pickNextFile_result [of s f t] Inr ft
    consider "f = []" "t = s" | c where "f = []" "t = s\<lparr>currentFileIndex := c\<rparr>"
      | c where "f \<in> set (filesQueue s)" "\<not> isCompleted s f" "t = s\<lparr>currentFileIndex := c\<rparr>"
        "f \<noteq> []"
      by blast
    then show ?thesis
    proof cases
      case 1
      with False assms Inr ft show ?thesis by (simp add: processFiles_def)
    next
      case 2
      with False assms Inr ft have "s1 = s\<lparr>currentFileIndex := c\<rparr>"
        by (simp add: processFiles_def)
      then show ?thesis by blast
    next
      case 3
      with False assms Inr ft
      have "s1 = (setFileStatus (s\<lparr>currentFileIndex := c\<rparr>) f Reading
                         (ReadLinesNumber (lockAt s f)))
                       \<lparr>activeWorkers := activeWorkers s + 1, workers := workers s @ [f]\<rparr>"
        by (simp add: processFiles_def Let_def)
      with 3 False show ?thesis by auto
    qed
  qed
qed

lemma processFiles_dispatched:
  assumes "processFiles s = Inr s1" and "workers s1 = workers s @ [file]"
  shows "\<not> isCompleted s file
    \<and> lockAt s1 file = \<lparr>Status = Reading, ReadLinesNumber = ReadLinesNumber (lockAt s file)\<rparr>
    \<and> (\<forall>g. g \<noteq> file \<longrightarrow> lockAt s1 g = lockAt s g)
    \<and> activeWorkers s < maxThreads s \<and> activeWorkers s1 = activeWorkers s + 1
    \<and> maxThreads s1 = maxThreads s \<and> filesQueue s1 = filesQueue s
    \<and> resultFile s1 = resultFile s \<and> file \<in> set (filesQueue s)"
proof -
  from processFiles_cases [OF assms(1)] assms(2)
  obtain f c where f: "\<not> isCompleted s f" "f \<in> set (filesQueue s)"
    and lt: "activeWorkers s < maxThreads s"
    and s1: "s1 = (setFileStatus (s\<lparr>currentFileIndex := c\<rparr>) f Reading
                         (ReadLinesNumber (lockAt s f)))
                       \<lparr>activeWorkers := activeWorkers s + 1, workers := workers s @ [f]\<rparr>"
    by auto
  from s1 assms(2) have "f = file" by simp
  with f lt s1 show ?thesis
    by (simp add: lockAt_setFileStatus isCompleted_def)
qed

section \<open>One dispatch of a worker\<close>

lemma single_file_probe:
  "filesQueue s = [file] \<Longrightarrow> probe_order s = [file]"
  by (simp add: probe_order_def)









lemma Ext_a_csv: "Ext ''a.csv'' = ''.csv''"
  by (simp add: Ext_def)

lemma one_file_world_fields:
  "filesQueue one_file_world = [''a.csv'']"
  "lock one_file_world ''a.csv'' = Some \<lparr>Status = NotRead, ReadLinesNumber = 0\<rparr>"
  "currentFileIndex one_file_world = 0"
  "activeWorkers one_file_world = 0"
  "maxThreads one_file_world = 4"
  "workers one_file_world = []"
  "running one_file_world = []"
  "newFilesEvent one_file_world = [''a.csv'']"
  "scanBlocked one_file_world = False"
  by (simp_all add: one_file_world_def checkForNewFiles_def Ext_a_csv isFileTracked_def
        StartWatching_def NewFileWatcherService_def MAX_THREADS_COUNT_def Let_def
        newFilesEvent_cap_def)


section \<open>Blank rows\<close>

lemma read_loop_skips_blank:
  "read_loop reads rl t res = read_loop (filter (\<lambda>r. \<not> is_blank r) reads) rl t res"
proof (induction reads arbitrary: rl t res)
  case Nil
  show ?case by simp
next
  case (Cons r reads)
  show ?case
  proof (cases r)
    case (ReadErr e)
    then show ?thesis by simp
  next
    case (Rec cols)
    show ?thesis
    proof (cases "isEmptyLine cols")
      case True
      with Rec Cons.IH show ?thesis by simp
    next
      case False
      with Rec Cons.IH [of rl t res] Cons.IH [of "rl - 1" t res]
        Cons.IH [of rl "t + 1"] show ?thesis
        by (simp split: sum.splits)
    qed
  qed
qed

lemma data_rows_all_blank: "\<forall>r \<in> set reads. is_blank r \<Longrightarrow> data_rows reads = []"
proof (induction reads)
  case Nil
  show ?case by simp
next
  case (Cons r reads)
  then show ?case by (cases r) simp_all
qed

lemma single_file_dispatch:
  assumes q: "filesQueue s = [file]" and ne: "file \<noteq> []"
    and c: "0 \<le> currentFileIndex s" and cap: "activeWorkers s < maxThreads s"
    and nc: "\<not> isCompleted s file"
  shows "\<exists>s1. processFiles s = Inr s1 \<and> workers s1 = workers s @ [file]"
proof -
  have p: "probe_order s = [file]" using q by (rule single_file_probe)
  have "pickNextFile s = Inr (file, s\<lparr>currentFileIndex := 0\<rparr>)"
    using pickNextFile_at [of s 0] c q nc p by simp
  with cap ne show ?thesis by (simp add: processFiles_def Let_def)
qed

text \<open>
  C10. Blank rows (records whose fields are all empty) use up neither the rows still to
  skip nor the room in the chunk: the read loop gives the same result on a file and on
  the file without its blank rows. Hence when every row of a dispatched file is blank,
  its worker collects nothing, writes nothing to the result file and sets the file
  Completed with the saved offset; on the first dispatch of such a file that is
  Completed with offset 0.
\<close>

theorem blank_rows_skipped:
  "read_loop reads rl t res = read_loop (filter (\<lambda>r. \<not> is_blank r) reads) rl t res
   \<and> (processFiles s = Inr s1 \<and> workers s1 = workers s @ [file]
        \<and> openResult env = Inr reads \<and> (\<forall>r \<in> set reads. is_blank r)
      \<longrightarrow> (\<exists>s2. readFile s1 file env = Inr s2
            \<and> lockAt s2 file =
                \<lparr>Status = Completed, ReadLinesNumber = ReadLinesNumber (lockAt s file)\<rparr>
            \<and> resultFile s2 = resultFile s))
   \<and> (filesQueue s = [file] \<and> file \<noteq> [] \<and> 0 \<le> currentFileIndex s
        \<and> activeWorkers s < maxThreads s
        \<and> lock s file = Some \<lparr>Status = NotRead, ReadLinesNumber = 0\<rparr>
        \<and> openResult env = Inr reads \<and> (\<forall>r \<in> set reads. is_blank r)
      \<longrightarrow> (\<exists>s'. dispatch_then_run s env = Inr s'
            \<and> lockAt s' file = \<lparr>Status = Completed, ReadLinesNumber = 0\<rparr>
            \<and> resultFile s' = resultFile s))"
proof -
  have A: "\<exists>s2. readFile w1 f e = Inr s2
            \<and> lockAt s2 f =
                \<lparr>Status = Completed, ReadLinesNumber = ReadLinesNumber (lockAt w0 f)\<rparr>
            \<and> resultFile s2 = resultFile w0 \<and> workers s2 = workers w1"
    if pf: "processFiles w0 = Inr w1" and w: "workers w1 = workers w0 @ [f]"
      and o: "openResult e = Inr rs" and b: "\<forall>r \<in> set rs. is_blank r"
    for w0 w1 :: World and f e rs
  proof -
    from b have ch: "next_chunk rs off = []" for off
      by (simp add: next_chunk_def data_rows_all_blank)
    from processFiles_dispatched [OF pf w]
    have l1: "lockAt w1 f
               = \<lparr>Status = Reading, ReadLinesNumber = ReadLinesNumber (lockAt w0 f)\<rparr>"
      and rf: "resultFile w1 = resultFile w0" by blast+
    have wf: "\<forall>cols \<in> set (next_chunk rs (ReadLinesNumber (lockAt w1 f))). 2 \<le> length cols"
      by (simp add: ch)
    from readFile_opened [OF o wf] l1 rf show ?thesis by (auto simp add: ch)
  qed
  have B: "\<exists>s'. dispatch_then_run s env = Inr s'
            \<and> lockAt s' file = \<lparr>Status = Completed, ReadLinesNumber = 0\<rparr>
            \<and> resultFile s' = resultFile s"
    if q: "filesQueue s = [file]" and ne: "file \<noteq> []" and c: "0 \<le> currentFileIndex s"
      and cap: "activeWorkers s < maxThreads s"
      and l: "lock s file = Some \<lparr>Status = NotRead, ReadLinesNumber = 0\<rparr>"
      and o: "openResult env = Inr reads" and b: "\<forall>r \<in> set reads. is_blank r"
  proof -
    from l have l0: "lockAt s file = \<lparr>Status = NotRead, ReadLinesNumber = 0\<rparr>"
      by (simp add: lockAt_def)
    then have nc: "\<not> isCompleted s file" by (simp add: isCompleted_def)
    from single_file_dispatch [OF q ne c cap nc] obtain s1 where
      pf: "processFiles s = Inr s1" and w: "workers s1 = workers s @ [file]" by blast
    from A [OF pf w o b] l0 obtain s2 where
      r: "readFile s1 file env = Inr s2"
      and l2: "lockAt s2 file = \<lparr>Status = Completed, ReadLinesNumber = 0\<rparr>"
      and rf: "resultFile s2 = resultFile s" by auto
    from pf w r have "dispatch_then_run s env = Inr (s2\<lparr>workers := butlast (workers s2)\<rparr>)"
      by (simp add: dispatch_then_run_def)
    with l2 rf show ?thesis by simp
  qed
  from A B show ?thesis
    by (intro conjI impI read_loop_skips_blank) blast+
qed


theorem blank_rows_skipped_witness:
  "filesQueue one_file_world = [''a.csv''] \<and> 0 \<le> currentFileIndex one_file_world
   \<and> activeWorkers one_file_world < maxThreads one_file_world
   \<and> openResult (file_env blank_rows) = Inr blank_rows
   \<and> (\<exists>s'. dispatch_then_run one_file_world (file_env blank_rows) = Inr s'
            \<and> lockAt s' ''a.csv'' = \<lparr>Status = Completed, ReadLinesNumber = 0\<rparr>
            \<and> resultFile s' = resultFile one_file_world)
   \<and> read_loop seven_rows 0 0 []
        = read_loop [Rec [''1'', ''a''], Rec [''2'', ''b''], Rec [''3'', ''c''],
            Rec [''4'', ''d''], Rec [''5'', ''e''], Rec [''6'', ''f''], Rec [''7'', ''g'']] 0 0 []"
proof -
  have h: "filesQueue one_file_world = [''a.csv'']" "''a.csv'' \<noteq> []"
    "0 \<le> currentFileIndex one_file_world"
    "activeWorkers one_file_world < maxThreads one_file_world"
    "lock one_file_world ''a.csv'' = Some \<lparr>Status = NotRead, ReadLinesNumber = 0\<rparr>"
    by (simp_all add: one_file_world_fields)
  have o: "openResult (file_env blank_rows) = Inr blank_rows"
    by (simp add: file_env_def)
  have b: "\<forall>r \<in> set blank_rows. is_blank r" by (simp add: blank_rows_def)
  from blank_rows_skipped [of blank_rows _ _ _ one_file_world _ "''a.csv''"
      "file_env blank_rows"] h o b
  have 1: "\<exists>s'. dispatch_then_run one_file_world (file_env blank_rows) = Inr s'
            \<and> lockAt s' ''a.csv'' = \<lparr>Status = Completed, ReadLinesNumber = 0\<rparr>
            \<and> resultFile s' = resultFile one_file_world"
    by blast
  have f: "filter (\<lambda>r. \<not> is_blank r) seven_rows
        = [Rec [''1'', ''a''], Rec [''2'', ''b''], Rec [''3'', ''c''],
            Rec [''4'', ''d''], Rec [''5'', ''e''], Rec [''6'', ''f''], Rec [''7'', ''g'']]"
    by (simp add: seven_rows_def)
  from blank_rows_skipped [of seven_rows 0 0 "[]"]
  have "read_loop seven_rows 0 0 []
          = read_loop (filter (\<lambda>r. \<not> is_blank r) seven_rows) 0 0 []"
    by blast
  then have 2: "read_loop seven_rows 0 0 []
        = read_loop [Rec [''1'', ''a''], Rec [''2'', ''b''], Rec [''3'', ''c''],
            Rec [''4'', ''d''], Rec [''5'', ''e''], Rec [''6'', ''f''], Rec [''7'', ''g'']] 0 0 []"
    by (simp only: f)
  from h o 1 2 show ?thesis by blast
qed

section \<open>Failures in a worker\<close>

lemma read_loop_error_is_eof:
  "read_loop (pre @ ReadErr err # post) rl t res = read_loop pre rl t res"
proof (induction pre arbitrary: rl t res)
  case Nil
  show ?case by simp
next
  case (Cons r pre)
  show ?case
  proof (cases r)
    case (ReadErr e)
    then show ?thesis by simp
  next
    case (Rec cols)
    with Cons.IH [of rl t res] Cons.IH [of "rl - 1" t res] Cons.IH [of rl "t + 1"]
    show ?thesis by (simp split: sum.splits)
  qed
qed

lemma readFile_activeWorkers:
  "readFile s file env = Inr s' \<Longrightarrow>
   activeWorkers s' = activeWorkers s - 1 \<and> maxThreads s' = maxThreads s
   \<and> workers s' = workers s \<and> filesQueue s' = filesQueue s
   \<and> currentFileIndex s' = currentFileIndex s \<and> scanBlocked s' = scanBlocked s
   \<and> newFilesEvent s' = newFilesEvent s"
  by (auto simp add: readFile_def Let_def split: sum.splits prod.splits if_splits)

lemma readFile_begin_effect:
  assumes "readFile_begin s file env = (s', r)"
  shows "maxThreads s' = maxThreads s \<and> workers s' = workers s \<and> running s' = running s
   \<and> filesQueue s' = filesQueue s \<and> currentFileIndex s' = currentFileIndex s
   \<and> lock s' = lock s
   \<and> (r = None \<longrightarrow> activeWorkers s' = activeWorkers s - 1)
   \<and> (\<forall>readLines. r = Some readLines \<longrightarrow>
         activeWorkers s' = activeWorkers s \<and> readLines = ReadLinesNumber (lockAt s file))"
  using assms by (auto simp add: readFile_begin_def Let_def split: sum.splits)

lemma readFile_end_effect:
  "readFile_end s file readLines reads env = Inr s' \<Longrightarrow>
   activeWorkers s' = activeWorkers s - 1 \<and> maxThreads s' = maxThreads s
   \<and> workers s' = workers s \<and> running s' = running s \<and> filesQueue s' = filesQueue s
   \<and> currentFileIndex s' = currentFileIndex s \<and> dom (lock s) \<subseteq> dom (lock s')"
  by (auto simp add: readFile_end_def Let_def setFileStatus_def
        split: sum.splits prod.splits if_splits)

lemma readFile_two_parts:
  "readFile s file env =
     (case readFile_begin s file env of
        (s1, None) \<Rightarrow> Inr s1
      | (s0, Some readLines) \<Rightarrow>
          (case openResult env of
             Inl err \<Rightarrow> Inr s0
           | Inr reads \<Rightarrow> readFile_end s0 file readLines reads env))"
  by (simp add: readFile_def readFile_begin_def readFile_end_def Let_def split: sum.splits)

lemma example_world_stdout: "stdout example_world = []" "resultFile example_world = []"
  by (simp_all add: example_world_def StartWatching_def NewFileWatcherService_def)

lemma broken_read: "read_loop broken_rows 3 3 [] = Inr (4, [mk_row [''4'', ''d'']])"
  by (simp add: broken_rows_def go_index_def MAX_CHUNK_SIZE_def mk_row_def)

lemma broken_run:
  "readFile example_world ''b.csv'' (file_env broken_rows) =
     Inr ((println ''File b.csv has been completed.''
            (setFileStatus
               (appendToResultFile (println ''Start reading file b.csv'' example_world)
                  (file_env broken_rows) [mk_row [''4'', ''d'']])
               ''b.csv'' Completed 4))
          \<lparr>activeWorkers := 0\<rparr>)"
  by (simp add: readFile_def Let_def file_env_def example_world_lockAt broken_read
        MAX_CHUNK_SIZE_def example_world_fields)

text \<open>
  C7 does not hold of the code for a failure to parse. The worker in flight for \<open>b.csv\<close>
  (status Reading, offset 3) reads four rows and then gets an error from the csv reader.
  The error is not printed and the entry of the file is not left alone: the error ends
  the read loop like the end of the file, and the worker sets the file Completed with
  offset 4, so that the rows behind the failing line are never read.
\<close>

theorem parse_failure_completes_file:
  "lockAt example_world ''b.csv'' = \<lparr>Status = Reading, ReadLinesNumber = 3\<rparr>
   \<and> broken_rows ! 4 = ReadErr ''record on line 5: wrong number of fields''
   \<and> \<not> isl (readFile example_world ''b.csv'' (file_env broken_rows))
   \<and> lockAt (projr (readFile example_world ''b.csv'' (file_env broken_rows))) ''b.csv''
       = \<lparr>Status = Completed, ReadLinesNumber = 4\<rparr>
   \<and> stdout (projr (readFile example_world ''b.csv'' (file_env broken_rows)))
       = [''Start reading file b.csv'', ''Appended chunk to ./result.txt'',
          ''File b.csv status updated to completed'', ''File b.csv has been completed.'']"
proof (intro conjI)
  show "lockAt example_world ''b.csv'' = \<lparr>Status = Reading, ReadLinesNumber = 3\<rparr>"
    by (simp add: example_world_lockAt)
  show "broken_rows ! 4 = ReadErr ''record on line 5: wrong number of fields''"
    by (simp add: broken_rows_def)
  show "\<not> isl (readFile example_world ''b.csv'' (file_env broken_rows))"
    by (simp add: broken_run)
  show "lockAt (projr (readFile example_world ''b.csv'' (file_env broken_rows))) ''b.csv''
       = \<lparr>Status = Completed, ReadLinesNumber = 4\<rparr>"
    by (simp add: broken_run lockAt_setFileStatus)
  show "stdout (projr (readFile example_world ''b.csv'' (file_env broken_rows)))
       = [''Start reading file b.csv'', ''Appended chunk to ./result.txt'',
          ''File b.csv status updated to completed'', ''File b.csv has been completed.'']"
    unfolding broken_run
    by (simp add: setFileStatus_def appendToResultFile_def file_env_def
          example_world_lockAt example_world_stdout RESULT_FILE_PATH_def Completed_def)
qed


lemma appendToResultFile_openResult [simp]:
  "appendToResultFile s (env\<lparr>openResult := x\<rparr>) results = appendToResultFile s env results"
  by (simp add: appendToResultFile_def split: option.splits)

text \<open>The failure to open the file is handled as C7 says: the worker prints that it
  starts and that opening failed, takes one from the count of active workers and changes
  nothing else. An error of the csv reader, in contrast, is handled like the end of the
  file: the worker does what it does for a file that ends just before the failing read.\<close>

lemma worker_failure:
  "(openResult env = Inl err \<longrightarrow>
      readFile s file env =
        Inr (s\<lparr>stdout := stdout s @ [''Start reading file '' @ file,
                                     ''Error opening file '' @ file @ '': '' @ err],
               activeWorkers := activeWorkers s - 1\<rparr>))
   \<and> (openResult env = Inr (pre @ ReadErr err # post) \<longrightarrow>
      readFile s file env = readFile s file (env\<lparr>openResult := Inr pre\<rparr>))
   \<and> (readFile s file env = Inr s' \<longrightarrow> activeWorkers s' = activeWorkers s - 1)"
proof (intro conjI impI)
  assume "openResult env = Inl err"
  then show "readFile s file env =
        Inr (s\<lparr>stdout := stdout s @ [''Start reading file '' @ file,
                                     ''Error opening file '' @ file @ '': '' @ err],
               activeWorkers := activeWorkers s - 1\<rparr>)"
    by (simp add: readFile_def Let_def println_def)
next
  assume "openResult env = Inr (pre @ ReadErr err # post)"
  then show "readFile s file env = readFile s file (env\<lparr>openResult := Inr pre\<rparr>)"
    by (simp add: readFile_def Let_def read_loop_error_is_eof split: sum.splits prod.splits)
next
  assume "readFile s file env = Inr s'"
  then show "activeWorkers s' = activeWorkers s - 1"
    by (simp add: readFile_activeWorkers)
qed

lemma worker_failure_example:
  "openResult missing_file_env = Inl ''open data/b.csv: no such file or directory''
   \<and> readFile example_world ''b.csv'' missing_file_env =
        Inr (example_world\<lparr>stdout := stdout example_world @ [''Start reading file '' @ ''b.csv'',
               ''Error opening file '' @ ''b.csv'' @ '': ''
                  @ ''open data/b.csv: no such file or directory''],
               activeWorkers := activeWorkers example_world - 1\<rparr>)
   \<and> lockAt (example_world\<lparr>stdout := stdout example_world @ [''Start reading file '' @ ''b.csv'',
               ''Error opening file '' @ ''b.csv'' @ '': ''
                  @ ''open data/b.csv: no such file or directory''],
               activeWorkers := activeWorkers example_world - 1\<rparr>) ''b.csv''
        = \<lparr>Status = Reading, ReadLinesNumber = 3\<rparr>
   \<and> openResult (file_env broken_rows)
        = Inr ([Rec [''1'', ''a''], Rec [''2'', ''b''], Rec [''3'', ''c''], Rec [''4'', ''d'']]
             @ ReadErr ''record on line 5: wrong number of fields'' # [Rec [''6'', ''f'']])
   \<and> readFile example_world ''b.csv'' (file_env broken_rows)
        = readFile example_world ''b.csv''
            ((file_env broken_rows)\<lparr>openResult :=
               Inr [Rec [''1'', ''a''], Rec [''2'', ''b''], Rec [''3'', ''c''],
                    Rec [''4'', ''d'']]\<rparr>)"
proof -
  have o: "openResult missing_file_env = Inl ''open data/b.csv: no such file or directory''"
    by (simp add: missing_file_env_def)
  have b: "openResult (file_env broken_rows)
        = Inr ([Rec [''1'', ''a''], Rec [''2'', ''b''], Rec [''3'', ''c''], Rec [''4'', ''d'']]
             @ ReadErr ''record on line 5: wrong number of fields'' # [Rec [''6'', ''f'']])"
    by (simp add: file_env_def broken_rows_def)
  have l: "lockAt (example_world\<lparr>stdout := stdout example_world @ [''Start reading file '' @ ''b.csv'',
               ''Error opening file '' @ ''b.csv'' @ '': ''
                  @ ''open data/b.csv: no such file or directory''],
               activeWorkers := activeWorkers example_world - 1\<rparr>) ''b.csv''
        = \<lparr>Status = Reading, ReadLinesNumber = 3\<rparr>"
    using example_world_lockAt(2) by (simp add: lockAt_def)
  from worker_failure [of missing_file_env _ example_world "''b.csv''"] o
  have 1: "readFile example_world ''b.csv'' missing_file_env =
        Inr (example_world\<lparr>stdout := stdout example_world @ [''Start reading file '' @ ''b.csv'',
               ''Error opening file '' @ ''b.csv'' @ '': ''
                  @ ''open data/b.csv: no such file or directory''],
               activeWorkers := activeWorkers example_world - 1\<rparr>)"
    by blast
  from worker_failure [of "file_env broken_rows" _ example_world "''b.csv''"] b
  have 2: "readFile example_world ''b.csv'' (file_env broken_rows)
        = readFile example_world ''b.csv''
            ((file_env broken_rows)\<lparr>openResult :=
               Inr [Rec [''1'', ''a''], Rec [''2'', ''b''], Rec [''3'', ''c''],
                    Rec [''4'', ''d'']]\<rparr>)"
    by blast
  from o l 1 b 2 show ?thesis by blast
qed

lemma example_dispatch: "processFiles example_world = Inr example_dispatched"
  by (simp add: processFiles_def example_pick_c example_world_fields example_dispatched_def
        Let_def example_world_lockAt)

lemma example_dispatched_lockAt:
  "lockAt example_dispatched ''c.csv'' = \<lparr>Status = Reading, ReadLinesNumber = 0\<rparr>"
  using example_world_lockAt(3)
  by (simp add: example_dispatched_def lockAt_setFileStatus)

text \<open>
  C9 does not hold of the code. After the dispatch of \<open>c.csv\<close> in \<open>example_world\<close>, the
  worker reads a file whose only line has one field: the row is not blank, nothing is left
  to skip and the chunk has room, so the loop indexes the second field of the record and
  the worker panics.
\<close>

theorem one_field_row_panics:
  "processFiles example_world = Inr example_dispatched
   \<and> lockAt example_dispatched ''c.csv'' = \<lparr>Status = Reading, ReadLinesNumber = 0\<rparr>
   \<and> readFile example_dispatched ''c.csv'' (file_env one_field_rows) = Inl IndexOutOfRange"
proof (intro conjI)
  show "processFiles example_world = Inr example_dispatched" by (rule example_dispatch)
  show "lockAt example_dispatched ''c.csv'' = \<lparr>Status = Reading, ReadLinesNumber = 0\<rparr>"
    by (rule example_dispatched_lockAt)
  have "read_loop one_field_rows 0 0 [] = Inl IndexOutOfRange"
    by (simp add: one_field_rows_def go_index_def MAX_CHUNK_SIZE_def)
  then show "readFile example_dispatched ''c.csv'' (file_env one_field_rows)
      = Inl IndexOutOfRange"
    by (simp add: readFile_def Let_def file_env_def example_dispatched_lockAt)
qed

section \<open>Invariants of the running service\<close>

lemma scan_loop_fields [simp]:
  "activeWorkers (scan_loop files s) = activeWorkers s"
  "maxThreads (scan_loop files s) = maxThreads s"
  "workers (scan_loop files s) = workers s"
  "running (scan_loop files s) = running s"
  "currentFileIndex (scan_loop files s) = currentFileIndex s"
  by (induction files s rule: scan_loop.induct; simp add: Let_def)+

lemma scan_loop_offset:
  "ReadLinesNumber (lockAt (scan_loop files s) f) = ReadLinesNumber (lockAt s f)"
proof (induction files arbitrary: s)
  case Nil
  show ?case by simp
next
  case (Cons entry rest)
  show ?case
    by (simp add: Cons.IH Let_def println_def isFileTracked_def)
       (auto simp add: lockAt_def)
qed

lemma checkForNewFiles_fields [simp]:
  "activeWorkers (checkForNewFiles s listing) = activeWorkers s"
  "maxThreads (checkForNewFiles s listing) = maxThreads s"
  "workers (checkForNewFiles s listing) = workers s"
  "running (checkForNewFiles s listing) = running s"
  "currentFileIndex (checkForNewFiles s listing) = currentFileIndex s"
  by (simp_all add: checkForNewFiles_def split: sum.splits)

lemma checkForNewFiles_offset:
  "ReadLinesNumber (lockAt (checkForNewFiles s listing) f) = ReadLinesNumber (lockAt s f)"
  by (simp add: checkForNewFiles_def scan_loop_offset split: sum.splits)

lemma processFiles_effect:
  assumes "processFiles s = Inr s'"
  shows "maxThreads s' = maxThreads s
    \<and> ReadLinesNumber (lockAt s' f) = ReadLinesNumber (lockAt s f)
    \<and> running s' = running s
    \<and> ((activeWorkers s' = activeWorkers s \<and> workers s' = workers s)
        \<or> (activeWorkers s < maxThreads s \<and> activeWorkers s' = activeWorkers s + 1
            \<and> (\<exists>g. workers s' = workers s @ [g])))"
proof -
  from processFiles_cases [OF assms]
  consider "s' = s" | c where "s' = s\<lparr>currentFileIndex := c\<rparr>"
    | g c where "activeWorkers s < maxThreads s" "\<not> isCompleted s g"
        "s' = (setFileStatus (s\<lparr>currentFileIndex := c\<rparr>) g Reading
                         (ReadLinesNumber (lockAt s g)))
                       \<lparr>activeWorkers := activeWorkers s + 1, workers := workers s @ [g]\<rparr>"
    by blast
  then show ?thesis
  proof cases
    case 1
    then show ?thesis by simp
  next
    case 2
    then show ?thesis by simp
  next
    case 3
    then show ?thesis by (simp add: lockAt_setFileStatus)
  qed
qed

lemma handleNewFileEvent_effect:
  assumes "handleNewFileEvent s file = Inr s'"
  shows "maxThreads s' = maxThreads s
    \<and> ReadLinesNumber (lockAt s' f) = ReadLinesNumber (lockAt s f)
    \<and> running s' = running s
    \<and> ((activeWorkers s' = activeWorkers s \<and> workers s' = workers s)
        \<or> (activeWorkers s < maxThreads s \<and> activeWorkers s' = activeWorkers s + 1
            \<and> (\<exists>g. workers s' = workers s @ [g])))"
proof (cases "isFileTracked s file")
  case True
  with assms show ?thesis by (auto simp add: handleNewFileEvent_def)
next
  case False
  with assms have "processFiles (println (''Processing new file: '' @ file) s) = Inr s'"
    by (simp add: handleNewFileEvent_def)
  from processFiles_effect [OF this, of f] show ?thesis by simp
qed

lemma read_loop_mono:
  "read_loop reads rl t res = Inr (t', res') \<Longrightarrow> t \<le> t'"
proof (induction reads arbitrary: rl t res)
  case Nil
  then show ?case by simp
next
  case (Cons r reads)
  show ?case
  proof (cases r)
    case (ReadErr e)
    with Cons.prems show ?thesis by simp
  next
    case (Rec cols)
    show ?thesis
    proof (cases "isEmptyLine cols \<or> rl > 0")
      case True
      with Rec Cons.prems Cons.IH [of rl t res] Cons.IH [of "rl - 1" t res]
      show ?thesis by (auto split: if_splits)
    next
      case False
      show ?thesis
      proof (cases "int (length res) < MAX_CHUNK_SIZE")
        case c: False
        with False Rec Cons.prems show ?thesis by simp
      next
        case c: True
        with False Rec Cons.prems obtain v0 v1 where
          "read_loop reads rl (t + 1) (res @ [[''id'' \<mapsto> v0, ''name'' \<mapsto> v1]])
             = Inr (t', res')"
          by (auto split: sum.splits)
        from Cons.IH [OF this] show ?thesis by simp
      qed
    qed
  qed
qed

lemma readFile_offset_mono:
  assumes "readFile s g env = Inr s'"
  shows "ReadLinesNumber (lockAt s f) \<le> ReadLinesNumber (lockAt s' f)"
proof (cases "openResult env")
  case (Inl err)
  with assms show ?thesis by (auto simp add: readFile_def Let_def)
next
  case (Inr reads)
  let ?o = "ReadLinesNumber (lockAt s g)"
  from assms Inr obtain t res where rl: "read_loop reads ?o ?o [] = Inr (t, res)"
    by (auto simp add: readFile_def Let_def split: sum.splits)
  from read_loop_mono [OF rl] have m: "?o \<le> t" .
  from assms Inr rl have "lockAt s' f = lockAt s f
      \<or> (f = g \<and> ReadLinesNumber (lockAt s' f) = t)"
    by (auto simp add: readFile_def Let_def lockAt_setFileStatus split: if_splits)
  with m show ?thesis by auto
qed

lemma step_workers:
  assumes "step s s'"
  shows "maxThreads s' = maxThreads s
    \<and> (activeWorkers s \<le> maxThreads s \<longrightarrow> activeWorkers s' \<le> maxThreads s')
    \<and> (int (length (workers s) + length (running s)) = activeWorkers s
          \<longrightarrow> int (length (workers s') + length (running s')) = activeWorkers s')"
  using assms
proof (induction rule: step.induct)
  case (scan_tick s listing)
  show ?case by simp
next
  case (new_file_event s fl rest s')
  from handleNewFileEvent_effect [OF new_file_event(3), of undefined] show ?case by auto
next
  case (dispatch_tick s s')
  from processFiles_effect [OF dispatch_tick, of undefined] show ?case by auto
next
  case (worker_open_failed i s env s')
  from readFile_begin_effect [OF worker_open_failed(2)] worker_open_failed(1)
  show ?case by auto
next
  case (worker_opened i s env s' readLines)
  from readFile_begin_effect [OF worker_opened(2)] worker_opened(1)
  show ?case by auto
next
  case (worker_finished j s fl readLines reads env s')
  from readFile_end_effect [OF worker_finished(3)] worker_finished(1)
  show ?case by auto
qed

lemma reachable_workers:
  assumes "0 \<le> maxT" and "reachable folder maxT s"
  shows "activeWorkers s \<le> maxThreads s \<and> maxThreads s = maxT
    \<and> int (length (workers s) + length (running s)) = activeWorkers s"
  using assms(2) unfolding reachable_def
proof (induction rule: rtranclp_induct)
  case base
  from assms(1) show ?case by (simp add: StartWatching_def NewFileWatcherService_def)
next
  case (step y z)
  from step_workers [OF step(2)] step(3) show ?case by simp
qed

lemma one_file_world_reachable: "reachable DATA_FILES_DIR MAX_THREADS_COUNT one_file_world"
proof -
  let ?init = "StartWatching (NewFileWatcherService DATA_FILES_DIR MAX_THREADS_COUNT)"
  have "\<not> scanBlocked ?init" by (simp add: StartWatching_def NewFileWatcherService_def)
  then have "step ?init (checkForNewFiles ?init (Inr [\<lparr>Name = ''a.csv'', IsDir = False\<rparr>]))"
    by (rule step.scan_tick)
  then show ?thesis unfolding reachable_def one_file_world_def by (rule r_into_rtranclp)
qed

text \<open>
  C4. For a service started with a ceiling \<open>maxT\<close> that is not negative, in every state
  reachable by the steps (scan tick, new-file event, dispatch tick, a started worker
  failing to open its file or reading its row count, a worker finishing) the count of
  active workers is at most the ceiling, which stays \<open>maxT\<close>, and equals the number of
  workers started and not finished. A dispatch tick with the count at or above the
  ceiling changes nothing; any other dispatch tick leaves the count as it is or raises
  it by one, starting at most one worker.
\<close>

theorem active_workers_bounded:
  "(0 \<le> maxT \<and> reachable folder maxT s \<longrightarrow>
      activeWorkers s \<le> maxThreads s \<and> maxThreads s = maxT
      \<and> int (length (workers s) + length (running s)) = activeWorkers s)
   \<and> (maxThreads s \<le> activeWorkers s \<longrightarrow> processFiles s = Inr s)
   \<and> (processFiles s = Inr s' \<longrightarrow>
        (activeWorkers s' = activeWorkers s \<and> workers s' = workers s)
        \<or> (activeWorkers s < maxThreads s \<and> activeWorkers s' = activeWorkers s + 1
            \<and> (\<exists>g. workers s' = workers s @ [g])))"
proof -
  have A: "activeWorkers s \<le> maxThreads s \<and> maxThreads s = maxT
      \<and> int (length (workers s) + length (running s)) = activeWorkers s"
    if "0 \<le> maxT \<and> reachable folder maxT s"
    using that reachable_workers [of maxT folder s] by blast
  have B: "processFiles s = Inr s" if "maxThreads s \<le> activeWorkers s"
    using that by (simp add: processFiles_def)
  have C: "(activeWorkers s' = activeWorkers s \<and> workers s' = workers s)
        \<or> (activeWorkers s < maxThreads s \<and> activeWorkers s' = activeWorkers s + 1
            \<and> (\<exists>g. workers s' = workers s @ [g]))"
    if "processFiles s = Inr s'"
    using processFiles_effect [OF that, of undefined] by blast
  from A B C show ?thesis by blast
qed

theorem active_workers_bounded_witness:
  "0 \<le> MAX_THREADS_COUNT \<and> reachable DATA_FILES_DIR MAX_THREADS_COUNT one_file_world
   \<and> activeWorkers one_file_world \<le> maxThreads one_file_world
   \<and> maxThreads one_file_world = MAX_THREADS_COUNT
   \<and> maxThreads (example_world\<lparr>activeWorkers := 4\<rparr>)
        \<le> activeWorkers (example_world\<lparr>activeWorkers := 4\<rparr>)
   \<and> processFiles (example_world\<lparr>activeWorkers := 4\<rparr>)
        = Inr (example_world\<lparr>activeWorkers := 4\<rparr>)
   \<and> processFiles example_world = Inr example_dispatched
   \<and> activeWorkers example_dispatched = activeWorkers example_world + 1"
proof -
  have m: "0 \<le> MAX_THREADS_COUNT" by (simp add: MAX_THREADS_COUNT_def)
  note r = one_file_world_reachable
  from active_workers_bounded [of MAX_THREADS_COUNT DATA_FILES_DIR one_file_world] m r
  have 1: "activeWorkers one_file_world \<le> maxThreads one_file_world"
    and 2: "maxThreads one_file_world = MAX_THREADS_COUNT" by blast+
  have f: "maxThreads (example_world\<lparr>activeWorkers := 4\<rparr>)
        \<le> activeWorkers (example_world\<lparr>activeWorkers := 4\<rparr>)"
    by (simp add: example_world_fields)
  from active_workers_bounded [of _ _ "example_world\<lparr>activeWorkers := 4\<rparr>"] f
  have 3: "processFiles (example_world\<lparr>activeWorkers := 4\<rparr>)
        = Inr (example_world\<lparr>activeWorkers := 4\<rparr>)" by blast
  note d = example_dispatch
  have ne: "workers example_dispatched \<noteq> workers example_world"
    by (simp add: example_dispatched_def example_world_fields)
  from active_workers_bounded [of _ _ example_world example_dispatched] d ne
  have 4: "activeWorkers example_dispatched = activeWorkers example_world + 1" by blast
  from m r 1 2 f 3 d 4 show ?thesis by blast
qed

section \<open>A file being read is picked again\<close>

lemma single_file_dispatch_full:
  assumes q: "filesQueue s = [file]" and ne: "file \<noteq> []"
    and c: "0 \<le> currentFileIndex s" and cap: "activeWorkers s < maxThreads s"
    and nc: "\<not> isCompleted s file"
  shows "\<exists>s1. processFiles s = Inr s1 \<and> workers s1 = workers s @ [file]
     \<and> currentFileIndex s1 = 0 \<and> filesQueue s1 = [file]
     \<and> lockAt s1 file = \<lparr>Status = Reading, ReadLinesNumber = ReadLinesNumber (lockAt s file)\<rparr>
     \<and> activeWorkers s1 = activeWorkers s + 1 \<and> maxThreads s1 = maxThreads s"
proof -
  have p: "probe_order s = [file]" using q by (rule single_file_probe)
  have "pickNextFile s = Inr (file, s\<lparr>currentFileIndex := 0\<rparr>)"
    using pickNextFile_at [of s 0] c q nc p by simp
  with cap ne nc q show ?thesis
    by (simp add: processFiles_def Let_def lockAt_setFileStatus isCompleted_def)
qed

text \<open>
  C8. \<open>pickNextFile\<close> takes a file whose status is Reading: when the file at the cursor is
  Reading, it is the file returned. So a file can be dispatched again while its worker is
  still in flight: the service started as \<open>main\<close> does reaches a state with the single
  file \<open>a.csv\<close> in the queue, status Reading, offset 0, its worker started and not yet
  run, and room for more workers; the next dispatch tick picks \<open>a.csv\<close> again and starts a
  second worker for it, the saved offset still being 0.
\<close>

theorem reading_file_picked_again:
  "(0 \<le> currentFileIndex s \<and> filesQueue s \<noteq> []
      \<and> Status (lockAt s (filesQueue s !
            (nat (currentFileIndex s) mod length (filesQueue s)))) = Reading
     \<longrightarrow> (\<exists>t. pickNextFile s =
            Inr (filesQueue s ! (nat (currentFileIndex s) mod length (filesQueue s)), t)))
   \<and> (\<exists>w w'. reachable DATA_FILES_DIR MAX_THREADS_COUNT w
        \<and> filesQueue w = [''a.csv''] \<and> workers w = [''a.csv'']
        \<and> lockAt w ''a.csv'' = \<lparr>Status = Reading, ReadLinesNumber = 0\<rparr>
        \<and> activeWorkers w < maxThreads w
        \<and> processFiles w = Inr w'
        \<and> workers w' = [''a.csv'', ''a.csv'']
        \<and> lockAt w' ''a.csv'' = \<lparr>Status = Reading, ReadLinesNumber = 0\<rparr>
        \<and> activeWorkers w' = 2)"
proof -
  have A: "\<exists>t. pickNextFile s =
            Inr (filesQueue s ! (nat (currentFileIndex s) mod length (filesQueue s)), t)"
    if h: "0 \<le> currentFileIndex s \<and> filesQueue s \<noteq> []
      \<and> Status (lockAt s (filesQueue s !
            (nat (currentFileIndex s) mod length (filesQueue s)))) = Reading"
  proof -
    from h have c: "0 \<le> currentFileIndex s" and k: "0 < length (filesQueue s)" by simp_all
    from probe_order_nth [OF c k]
    have p: "probe_order s ! 0
        = filesQueue s ! (nat (currentFileIndex s) mod length (filesQueue s))" by simp
    with h have a: "\<not> isCompleted s (probe_order s ! 0)" by (simp add: isCompleted_def)
    from pickNextFile_at [OF c k _ a] p show ?thesis by simp
  qed
  have B: "\<exists>w w'. reachable DATA_FILES_DIR MAX_THREADS_COUNT w
        \<and> filesQueue w = [''a.csv''] \<and> workers w = [''a.csv'']
        \<and> lockAt w ''a.csv'' = \<lparr>Status = Reading, ReadLinesNumber = 0\<rparr>
        \<and> activeWorkers w < maxThreads w
        \<and> processFiles w = Inr w'
        \<and> workers w' = [''a.csv'', ''a.csv'']
        \<and> lockAt w' ''a.csv'' = \<lparr>Status = Reading, ReadLinesNumber = 0\<rparr>
        \<and> activeWorkers w' = 2"
  proof -
    let ?a = "''a.csv''"
    have l0: "lockAt one_file_world ?a = \<lparr>Status = NotRead, ReadLinesNumber = 0\<rparr>"
      by (simp add: lockAt_def one_file_world_fields)
    then have nc0: "\<not> isCompleted one_file_world ?a" by (simp add: isCompleted_def)
    from single_file_dispatch_full [of one_file_world ?a] nc0 l0
    obtain w where d1: "processFiles one_file_world = Inr w"
      and w1: "workers w = [?a]" and c1: "currentFileIndex w = 0"
      and q1: "filesQueue w = [?a]"
      and l1: "lockAt w ?a = \<lparr>Status = Reading, ReadLinesNumber = 0\<rparr>"
      and a1: "activeWorkers w = 1" and m1: "maxThreads w = 4"
      by (auto simp add: one_file_world_fields)
    from l1 have nc1: "\<not> isCompleted w ?a" by (simp add: isCompleted_def)
    from single_file_dispatch_full [of w ?a] nc1 l1 q1 c1 a1 m1 w1
    obtain w' where d2: "processFiles w = Inr w'"
      and w2: "workers w' = [?a, ?a]"
      and l2: "lockAt w' ?a = \<lparr>Status = Reading, ReadLinesNumber = 0\<rparr>"
      and a2: "activeWorkers w' = 2"
      by auto
    from d1 have "step one_file_world w" by (rule step.dispatch_tick)
    with one_file_world_reachable have r: "reachable DATA_FILES_DIR MAX_THREADS_COUNT w"
      unfolding reachable_def by (rule rtranclp.rtrancl_into_rtrancl)
    from a1 m1 have cap: "activeWorkers w < maxThreads w" by simp
    from r q1 w1 l1 cap d2 w2 l2 a2 show ?thesis by blast
  qed
  from A B show ?thesis by blast
qed

theorem reading_file_picked_again_witness:
  "0 \<le> currentFileIndex (example_world\<lparr>currentFileIndex := 1\<rparr>)
   \<and> filesQueue (example_world\<lparr>currentFileIndex := 1\<rparr>) \<noteq> []
   \<and> filesQueue (example_world\<lparr>currentFileIndex := 1\<rparr>) !
        (nat (currentFileIndex (example_world\<lparr>currentFileIndex := 1\<rparr>))
           mod length (filesQueue (example_world\<lparr>currentFileIndex := 1\<rparr>))) = ''b.csv''
   \<and> Status (lockAt (example_world\<lparr>currentFileIndex := 1\<rparr>) ''b.csv'') = Reading
   \<and> workers (example_world\<lparr>currentFileIndex := 1\<rparr>) = [''b.csv'']
   \<and> (\<exists>t. pickNextFile (example_world\<lparr>currentFileIndex := 1\<rparr>) = Inr (''b.csv'', t))"
proof -
  let ?v = "example_world\<lparr>currentFileIndex := 1\<rparr>"
  have c: "0 \<le> currentFileIndex ?v" and q: "filesQueue ?v \<noteq> []"
    and w: "workers ?v = [''b.csv'']"
    by (simp_all add: example_world_fields)
  have i: "filesQueue ?v ! (nat (currentFileIndex ?v) mod length (filesQueue ?v)) = ''b.csv''"
    by (simp add: example_world_fields)
  have r: "Status (lockAt ?v ''b.csv'') = Reading"
    by (simp add: example_world_lockAt)
  from reading_file_picked_again [of ?v] c q r [folded i]
  have "\<exists>t. pickNextFile ?v =
     Inr (filesQueue ?v ! (nat (currentFileIndex ?v) mod length (filesQueue ?v)), t)"
    by blast
  then have p: "\<exists>t. pickNextFile ?v = Inr (''b.csv'', t)" by (simp only: i)
  from c q i r w p show ?thesis by blast
qed

section \<open>The queue in reachable states\<close>

text \<open>The conditions under which the picker was analysed above hold in every state the
  service can reach: the scanner queues only names that end in \<open>.csv\<close> and are not tracked
  yet, nothing is ever taken out of the table, and the cursor is only ever assigned a
  remainder.\<close>

lemma Ext_Nil: "Ext [] \<noteq> ''.csv''"
  by (simp add: Ext_def)

lemma scan_loop_invariant: "queue_invariant s \<Longrightarrow> queue_invariant (scan_loop files s)"
proof (induction files arbitrary: s)
  case Nil
  then show ?case by simp
next
  case (Cons entry rest)
  have new: "queue_invariant (x\<lparr>lock := (lock s)(Name entry \<mapsto> v),
                                  filesQueue := filesQueue s @ [Name entry]\<rparr>)"
    if "Ext (Name entry) = ''.csv''" and "lock s (Name entry) = None"
      and "currentFileIndex x = currentFileIndex s" for x :: World and v
  proof -
    from that(1) Ext_Nil have "Name entry \<noteq> []" by auto
    moreover from that(2) Cons.prems have "Name entry \<notin> set (filesQueue s)"
      by (auto simp add: queue_invariant_def)
    ultimately show ?thesis using Cons.prems that(3)
      by (auto simp add: queue_invariant_def)
  qed
  have blocked: "queue_invariant (x\<lparr>scanBlocked := b\<rparr>) = queue_invariant x"
    for x :: World and b
    by (simp add: queue_invariant_def)
  have event: "queue_invariant (x\<lparr>newFilesEvent := e\<rparr>) = queue_invariant x"
    for x :: World and e
    by (simp add: queue_invariant_def)
  have out: "queue_invariant (x\<lparr>stdout := e\<rparr>) = queue_invariant x"
    for x :: World and e
    by (simp add: queue_invariant_def)
  show ?case
  proof (cases "\<not> IsDir entry \<and> Ext (Name entry) = ''.csv'' \<and> \<not> isFileTracked s (Name entry)")
    case False
    with Cons show ?thesis by auto
  next
    case True
    then have e: "Ext (Name entry) = ''.csv''" and n: "lock s (Name entry) = None"
      by (simp_all add: isFileTracked_def)
    from new [OF e n, of s] have "queue_invariant
        (s\<lparr>lock := (lock s)(Name entry \<mapsto> \<lparr>Status = NotRead, ReadLinesNumber = 0\<rparr>),
           filesQueue := filesQueue s @ [Name entry]\<rparr>)" by simp
    with True show ?thesis
      by (simp add: Let_def println_def blocked event out Cons.IH)
  qed
qed

lemma checkForNewFiles_invariant:
  "queue_invariant s \<Longrightarrow> queue_invariant (checkForNewFiles s listing)"
  by (cases listing)
     (simp_all add: checkForNewFiles_def scan_loop_invariant, simp add: queue_invariant_def)

lemma setFileStatus_dom: "dom (lock s) \<subseteq> dom (lock (setFileStatus s f st n))"
  by (auto simp add: setFileStatus_def)

lemma processFiles_invariant:
  assumes "queue_invariant s" and "processFiles s = Inr s'"
  shows "queue_invariant s'"
proof (cases "activeWorkers s \<ge> maxThreads s")
  case True
  with assms show ?thesis by (simp add: processFiles_def)
next
  case False
  from assms(1) have c: "0 \<le> currentFileIndex s" by (simp add: queue_invariant_def)
  show ?thesis
  proof (cases "pickNextFile s")
    case (Inl p)
    with False assms show ?thesis by (simp add: processFiles_def)
  next
    case (Inr ft)
    obtain f t where ft: "ft = (f, t)" by (cases ft)
    from pickNextFile_picked [of s f t] Inr ft c
    have "t = s \<or> (\<exists>c\<ge>0. t = s\<lparr>currentFileIndex := c\<rparr>)" by auto
    with assms(1) have t: "queue_invariant t" by (auto simp add: queue_invariant_def)
    show ?thesis
    proof (cases "f = []")
      case True
      with False assms(2) Inr ft t show ?thesis by (simp add: processFiles_def)
    next
      case ne: False
      with False assms(2) Inr ft
      have s': "s' = (setFileStatus t f Reading (ReadLinesNumber (lockAt t f)))
                 \<lparr>activeWorkers := activeWorkers t + 1, workers := workers t @ [f]\<rparr>"
        by (simp add: processFiles_def Let_def)
      from t have "set (filesQueue t) \<subseteq> dom (lock t)" by (simp add: queue_invariant_def)
      with setFileStatus_dom [of t f Reading "ReadLinesNumber (lockAt t f)"]
      have "set (filesQueue t)
              \<subseteq> dom (lock (setFileStatus t f Reading (ReadLinesNumber (lockAt t f))))"
        by (rule order_trans [rotated])
      with t show ?thesis unfolding s' by (simp add: queue_invariant_def)
    qed
  qed
qed

lemma handleNewFileEvent_invariant:
  assumes "queue_invariant s" and "handleNewFileEvent s file = Inr s'"
  shows "queue_invariant s'"
proof (cases "isFileTracked s file")
  case True
  with assms show ?thesis by (auto simp add: handleNewFileEvent_def queue_invariant_def)
next
  case False
  from assms(1) have "queue_invariant (println (''Processing new file: '' @ file) s)"
    by (simp add: queue_invariant_def)
  moreover from False assms(2)
  have "processFiles (println (''Processing new file: '' @ file) s) = Inr s'"
    by (simp add: handleNewFileEvent_def)
  ultimately show ?thesis by (rule processFiles_invariant)
qed

lemma readFile_dom:
  "readFile s g env = Inr s' \<Longrightarrow> dom (lock s) \<subseteq> dom (lock s')"
  by (auto simp add: readFile_def Let_def setFileStatus_def
        split: sum.splits prod.splits if_splits)

lemma readFile_invariant:
  assumes "queue_invariant s" and "readFile s g env = Inr s'"
  shows "queue_invariant s'"
proof -
  from assms(1) have "set (filesQueue s) \<subseteq> dom (lock s)" by (simp add: queue_invariant_def)
  with readFile_dom [OF assms(2)] have "set (filesQueue s) \<subseteq> dom (lock s')"
    by (rule order_trans [rotated])
  with assms(1) readFile_activeWorkers [OF assms(2)] show ?thesis
    by (simp add: queue_invariant_def)
qed

lemma step_invariant: "step s s' \<Longrightarrow> queue_invariant s \<Longrightarrow> queue_invariant s'"
proof (induction rule: step.induct)
  case (scan_tick s listing)
  then show ?case by (simp add: checkForNewFiles_invariant)
next
  case (new_file_event s fl rest s')
  from new_file_event(4) have "queue_invariant (s\<lparr>newFilesEvent := rest\<rparr>)"
    by (simp add: queue_invariant_def)
  then show ?case using new_file_event(3) by (rule handleNewFileEvent_invariant)
next
  case (dispatch_tick s s')
  then show ?case by (simp add: processFiles_invariant)
next
  case (worker_open_failed i s env s')
  from readFile_begin_effect [OF worker_open_failed(2)] worker_open_failed(3)
  show ?case by (simp add: queue_invariant_def)
next
  case (worker_opened i s env s' readLines)
  from readFile_begin_effect [OF worker_opened(2)] worker_opened(3)
  show ?case by (simp add: queue_invariant_def)
next
  case (worker_finished j s fl readLines reads env s')
  from worker_finished(4) have "set (filesQueue s) \<subseteq> dom (lock s)"
    by (simp add: queue_invariant_def)
  with readFile_end_effect [OF worker_finished(3)] have "set (filesQueue s) \<subseteq> dom (lock s')"
    by (blast intro: order_trans)
  with readFile_end_effect [OF worker_finished(3)] worker_finished(4)
  show ?case by (simp add: queue_invariant_def)
qed

lemma reachable_queue_invariant:
  "reachable folder maxT s \<Longrightarrow> queue_invariant s"
  unfolding reachable_def
proof (induction rule: rtranclp_induct)
  case base
  show ?case by (simp add: queue_invariant_def StartWatching_def NewFileWatcherService_def)
next
  case (step y z)
  from step_invariant [OF step(2) step(3)] show ?case .
qed

section \<open>Runs of the service step by step\<close>

lemma readFile_end_result:
  assumes wf: "\<forall>cols \<in> set (next_chunk reads readLines). 2 \<le> length cols"
  shows "\<exists>s'. readFile_end s file readLines reads env = Inr s'
     \<and> lockAt s' file =
         (if length (next_chunk reads readLines) < 3
          then \<lparr>Status = Completed,
                ReadLinesNumber = readLines + int (length (next_chunk reads readLines))\<rparr>
          else if isCompleted s file then lockAt s file
          else \<lparr>Status = NotRead,
                ReadLinesNumber = readLines + int (length (next_chunk reads readLines))\<rparr>)
     \<and> activeWorkers s' = activeWorkers s - 1 \<and> maxThreads s' = maxThreads s
     \<and> filesQueue s' = filesQueue s \<and> currentFileIndex s' = currentFileIndex s
     \<and> workers s' = workers s \<and> running s' = running s"
proof -
  let ?ch = "next_chunk reads readLines"
  have rl: "read_loop reads readLines readLines []
              = Inr (readLines + int (length ?ch), map mk_row ?ch)"
    using wf by (rule read_loop_next_chunk)
  show ?thesis
  proof (cases "length ?ch < 3")
    case True
    with rl show ?thesis
      by (simp add: readFile_end_def Let_def MAX_CHUNK_SIZE_def lockAt_setFileStatus)
  next
    case False
    with rl show ?thesis
      by (simp add: readFile_end_def Let_def MAX_CHUNK_SIZE_def lockAt_setFileStatus
            isCompleted_def)
  qed
qed

lemma reachable_step:
  "reachable folder maxT s \<Longrightarrow> step s s' \<Longrightarrow> reachable folder maxT s'"
  unfolding reachable_def by (rule rtranclp.rtrancl_into_rtrancl)

lemma trace_dispatch:
  assumes "filesQueue s = [f]" and "f \<noteq> []" and "0 \<le> currentFileIndex s"
    and "activeWorkers s < maxThreads s"
    and "lockAt s f = \<lparr>Status = st, ReadLinesNumber = off\<rparr>" and "st \<noteq> Completed"
  shows "\<exists>s'. step s s' \<and> filesQueue s' = [f] \<and> 0 \<le> currentFileIndex s'
     \<and> lockAt s' f = \<lparr>Status = Reading, ReadLinesNumber = off\<rparr>
     \<and> activeWorkers s' = activeWorkers s + 1 \<and> maxThreads s' = maxThreads s
     \<and> workers s' = workers s @ [f] \<and> running s' = running s"
proof -
  from assms(5,6) have nc: "\<not> isCompleted s f" by (simp add: isCompleted_def)
  from single_file_dispatch_full [OF assms(1,2,3,4) nc] assms(5)
  obtain s1 where p: "processFiles s = Inr s1" and f: "workers s1 = workers s @ [f]"
    "currentFileIndex s1 = 0" "filesQueue s1 = [f]"
    "lockAt s1 f = \<lparr>Status = Reading, ReadLinesNumber = off\<rparr>"
    "activeWorkers s1 = activeWorkers s + 1" "maxThreads s1 = maxThreads s"
    by auto
  from processFiles_effect [OF p, of f] have r: "running s1 = running s" by blast
  from p have "step s s1" by (rule step.dispatch_tick)
  with f r show ?thesis by auto
qed

lemma trace_opened:
  assumes "workers s = f # ws"
  shows "\<exists>s'. step s s' \<and> filesQueue s' = filesQueue s
     \<and> currentFileIndex s' = currentFileIndex s \<and> lockAt s' g = lockAt s g
     \<and> activeWorkers s' = activeWorkers s \<and> maxThreads s' = maxThreads s
     \<and> workers s' = ws \<and> running s' = running s @ [(f, ReadLinesNumber (lockAt s f))]"
proof -
  let ?s0 = "println (''Start reading file '' @ f) s"
  have b: "readFile_begin s (workers s ! 0) (file_env [])
             = (?s0, Some (ReadLinesNumber (lockAt s f)))"
    using assms by (simp add: readFile_begin_def file_env_def Let_def)
  from assms have "0 < length (workers s)" by simp
  from step.worker_opened [OF this b] assms
  have "step s (?s0\<lparr>workers := ws,
                     running := running s @ [(f, ReadLinesNumber (lockAt s f))]\<rparr>)"
    by simp
  then show ?thesis by (intro exI [of _ "?s0\<lparr>workers := ws,
                     running := running s @ [(f, ReadLinesNumber (lockAt s f))]\<rparr>"]) simp
qed

lemma trace_finished:
  assumes r: "running s = rs1 @ (f, readLines) # rs2"
    and wf: "\<forall>cols \<in> set (next_chunk reads readLines). 2 \<le> length cols"
  shows "\<exists>s'. step s s' \<and> filesQueue s' = filesQueue s
     \<and> currentFileIndex s' = currentFileIndex s
     \<and> lockAt s' f =
         (if length (next_chunk reads readLines) < 3
          then \<lparr>Status = Completed,
                ReadLinesNumber = readLines + int (length (next_chunk reads readLines))\<rparr>
          else if isCompleted s f then lockAt s f
          else \<lparr>Status = NotRead,
                ReadLinesNumber = readLines + int (length (next_chunk reads readLines))\<rparr>)
     \<and> activeWorkers s' = activeWorkers s - 1 \<and> maxThreads s' = maxThreads s
     \<and> workers s' = workers s \<and> running s' = rs1 @ rs2"
proof -
  from readFile_end_result [OF wf, of s f "file_env reads"] obtain s1 where
    e: "readFile_end s f readLines reads (file_env reads) = Inr s1"
    and l: "lockAt s1 f =
         (if length (next_chunk reads readLines) < 3
          then \<lparr>Status = Completed,
                ReadLinesNumber = readLines + int (length (next_chunk reads readLines))\<rparr>
          else if isCompleted s f then lockAt s f
          else \<lparr>Status = NotRead,
                ReadLinesNumber = readLines + int (length (next_chunk reads readLines))\<rparr>)"
    and f: "activeWorkers s1 = activeWorkers s - 1" "maxThreads s1 = maxThreads s"
      "filesQueue s1 = filesQueue s" "currentFileIndex s1 = currentFileIndex s"
      "workers s1 = workers s" "running s1 = running s"
    by blast
  from r have j: "length rs1 < length (running s)" and at: "running s ! length rs1 = (f, readLines)"
    by simp_all
  from step.worker_finished [OF j at e]
  have "step s (s1\<lparr>running := take (length rs1) (running s1)
                        @ drop (Suc (length rs1)) (running s1)\<rparr>)" .
  moreover have "take (length rs1) (running s1) @ drop (Suc (length rs1)) (running s1)
      = rs1 @ rs2" using f(6) r by simp
  ultimately have "step s (s1\<lparr>running := rs1 @ rs2\<rparr>)" by simp
  with l f show ?thesis by (intro exI [of _ "s1\<lparr>running := rs1 @ rs2\<rparr>"]) simp
qed

section \<open>The saved offset can go back\<close>

lemma six_rows_chunks:
  "next_chunk six_rows 0 = [[''1'', ''a''], [''2'', ''b''], [''3'', ''c'']]"
  "next_chunk six_rows 3 = [[''4'', ''d''], [''5'', ''e''], [''6'', ''f'']]"
  by (simp_all add: next_chunk_def six_rows_def MAX_CHUNK_SIZE_def)

text \<open>
  C5 does not hold of the code: the saved offset of a file can go back. A worker reads the
  saved row count when it starts and writes its sum with the rows collected back when it
  has read the file, and a file that is Reading is dispatched again (C8). In the run
  below \<open>a.csv\<close> has six rows. Its first worker reads the row count 0; before it goes
  on, a second worker is dispatched, reads rows 1 to 3 and sets the offset to 3, and a
  third is dispatched, reads rows 4 to 6 and sets the offset to 6; then the first worker
  finishes, having collected rows 1 to 3 again, and sets the offset to 0 + 3 = 3.
\<close>

theorem offset_decreases:
  "\<exists>s s'. reachable DATA_FILES_DIR MAX_THREADS_COUNT s \<and> step s s'
     \<and> filesQueue s = [''a.csv''] \<and> running s = [(''a.csv'', 0)]
     \<and> lockAt s ''a.csv'' = \<lparr>Status = NotRead, ReadLinesNumber = 6\<rparr>
     \<and> lockAt s' ''a.csv'' = \<lparr>Status = NotRead, ReadLinesNumber = 3\<rparr>"
proof -
  let ?a = "''a.csv''"
  let ?R = "reachable DATA_FILES_DIR MAX_THREADS_COUNT"
  have ne: "?a \<noteq> []" by simp
  have wf0: "\<forall>cols \<in> set (next_chunk six_rows 0). 2 \<le> length cols"
    and wf3: "\<forall>cols \<in> set (next_chunk six_rows 3). 2 \<le> length cols"
    by (simp_all add: six_rows_chunks)
  have l0: "lockAt one_file_world ?a = \<lparr>Status = NotRead, ReadLinesNumber = 0\<rparr>"
    by (simp add: lockAt_def one_file_world_fields)
  txt \<open>The first worker is dispatched and reads the saved row count 0.\<close>
  from trace_dispatch [of one_file_world ?a NotRead 0] l0
  obtain s1 where 1: "step one_file_world s1" "filesQueue s1 = [?a]" "0 \<le> currentFileIndex s1"
    "lockAt s1 ?a = \<lparr>Status = Reading, ReadLinesNumber = 0\<rparr>"
    "activeWorkers s1 = 1" "maxThreads s1 = 4" "workers s1 = [?a]" "running s1 = []"
    by (auto simp add: one_file_world_fields)
  from reachable_step [OF one_file_world_reachable 1(1)] have r1: "?R s1" .
  from trace_opened [of s1 ?a "[]" ?a] 1
  obtain s2 where 2: "step s1 s2" "filesQueue s2 = [?a]" "0 \<le> currentFileIndex s2"
    "lockAt s2 ?a = \<lparr>Status = Reading, ReadLinesNumber = 0\<rparr>"
    "activeWorkers s2 = 1" "maxThreads s2 = 4" "workers s2 = []" "running s2 = [(?a, 0)]"
    by auto
  from reachable_step [OF r1 2(1)] have r2: "?R s2" .
  txt \<open>The file, still Reading, is dispatched again; the second worker reads rows 1 to 3.\<close>
  from trace_dispatch [of s2 ?a Reading 0] 2
  obtain s3 where 3: "step s2 s3" "filesQueue s3 = [?a]" "0 \<le> currentFileIndex s3"
    "lockAt s3 ?a = \<lparr>Status = Reading, ReadLinesNumber = 0\<rparr>"
    "activeWorkers s3 = 2" "maxThreads s3 = 4" "workers s3 = [?a]" "running s3 = [(?a, 0)]"
    by auto
  from reachable_step [OF r2 3(1)] have r3: "?R s3" .
  from trace_opened [of s3 ?a "[]" ?a] 3
  obtain s4 where 4: "step s3 s4" "filesQueue s4 = [?a]" "0 \<le> currentFileIndex s4"
    "lockAt s4 ?a = \<lparr>Status = Reading, ReadLinesNumber = 0\<rparr>"
    "activeWorkers s4 = 2" "maxThreads s4 = 4" "workers s4 = []"
    "running s4 = [(?a, 0), (?a, 0)]"
    by auto
  from reachable_step [OF r3 4(1)] have r4: "?R s4" .
  from 4(4) have nc4: "\<not> isCompleted s4 ?a" by (simp add: isCompleted_def)
  from trace_finished [of s4 "[(?a, 0)]" ?a 0 "[]" six_rows, OF _ wf0] 4 nc4
  obtain s5 where 5: "step s4 s5" "filesQueue s5 = [?a]" "0 \<le> currentFileIndex s5"
    "lockAt s5 ?a = \<lparr>Status = NotRead, ReadLinesNumber = 3\<rparr>"
    "activeWorkers s5 = 1" "maxThreads s5 = 4" "workers s5 = []" "running s5 = [(?a, 0)]"
    by (auto simp add: six_rows_chunks)
  from reachable_step [OF r4 5(1)] have r5: "?R s5" .
  txt \<open>A third worker is dispatched and reads rows 4 to 6.\<close>
  from trace_dispatch [of s5 ?a NotRead 3] 5
  obtain s6 where 6: "step s5 s6" "filesQueue s6 = [?a]" "0 \<le> currentFileIndex s6"
    "lockAt s6 ?a = \<lparr>Status = Reading, ReadLinesNumber = 3\<rparr>"
    "activeWorkers s6 = 2" "maxThreads s6 = 4" "workers s6 = [?a]" "running s6 = [(?a, 0)]"
    by auto
  from reachable_step [OF r5 6(1)] have r6: "?R s6" .
  from trace_opened [of s6 ?a "[]" ?a] 6
  obtain s7 where 7: "step s6 s7" "filesQueue s7 = [?a]" "0 \<le> currentFileIndex s7"
    "lockAt s7 ?a = \<lparr>Status = Reading, ReadLinesNumber = 3\<rparr>"
    "activeWorkers s7 = 2" "maxThreads s7 = 4" "workers s7 = []"
    "running s7 = [(?a, 0), (?a, 3)]"
    by auto
  from reachable_step [OF r6 7(1)] have r7: "?R s7" .
  from 7(4) have nc7: "\<not> isCompleted s7 ?a" by (simp add: isCompleted_def)
  from trace_finished [of s7 "[(?a, 0)]" ?a 3 "[]" six_rows, OF _ wf3] 7 nc7
  obtain s8 where 8: "step s7 s8" "filesQueue s8 = [?a]" "0 \<le> currentFileIndex s8"
    "lockAt s8 ?a = \<lparr>Status = NotRead, ReadLinesNumber = 6\<rparr>"
    "activeWorkers s8 = 1" "maxThreads s8 = 4" "workers s8 = []" "running s8 = [(?a, 0)]"
    by (auto simp add: six_rows_chunks)
  from reachable_step [OF r7 8(1)] have r8: "?R s8" .
  txt \<open>The first worker, which read the row count 0, finishes last.\<close>
  from 8(4) have nc8: "\<not> isCompleted s8 ?a" by (simp add: isCompleted_def)
  from trace_finished [of s8 "[]" ?a 0 "[]" six_rows, OF _ wf0] 8 nc8
  obtain s9 where 9: "step s8 s9"
    "lockAt s9 ?a = \<lparr>Status = NotRead, ReadLinesNumber = 3\<rparr>"
    by (auto simp add: six_rows_chunks)
  from r8 9 8 show ?thesis by blast
qed

section \<open>A worker running after another on the same file\<close>

















end
